theory Spec2Isabelle
  imports Main "HOL-Library.Word"
begin

section \<open>The RDMA block pool of brpc (src/brpc/rdma/block_pool.cpp)\<close>

text \<open>
  The pool is a set of process-wide globals. They are collected in one record that every
  operation takes and returns. The model is sequential: the mutexes of the source
  (one per bucket, and \<open>extend_lock\<close>) are not part of the state, and the
  allocation of those mutexes in \<open>InitBlockPool\<close> is not modelled.

  Machine integers: \<open>size_t\<close>, \<open>uintptr_t\<close> and \<open>uint64_t\<close> are natural
  numbers, and every addition and multiplication of the source that can leave the
  64-bit range is wrapped by \<open>u64\<close>. The gflags are \<open>int\<close>; the lkey is a
  32-bit word.
\<close>

subsection \<open>Data\<close>

datatype errno_t = E0 | EINVAL | ENOMEM | ERANGE

text \<open>\<open>struct IdleNode\<close>; the \<open>next\<close> link is the tail of the HOL list the node is on.\<close>

record IdleNode =
  start :: nat
  len :: nat

text \<open>\<open>struct Region\<close>; \<open>r_id\<close> is the lkey.\<close>

record Region =
  r_start :: nat
  r_size :: nat
  r_block_type :: nat
  r_id :: "32 word"

type_synonym Callback = "nat \<Rightarrow> nat \<Rightarrow> 32 word"

text \<open>
  The globals of the file. \<open>DEFAULT_BLOCK_SIZE\<close> stands for
  \<open>butil::IOBuf::DEFAULT_BLOCK_SIZE\<close>, a constant declared outside the files at hand;
  it is a parameter of the model, fixed in the initial state. \<open>g_info\<close> tells whether
  the \<open>GlobalInfo\<close> object exists; its two members are the fields \<open>idle_list\<close>
  (indexed by block type and bucket) and \<open>ready_list\<close> (indexed by block type).

  Two fields describe the collaborators the file calls: \<open>heap\<close> lists the
  blocks \<open>(base, size)\<close> obtained from \<open>posix_memalign\<close> and not yet passed to
  \<open>free\<close>; \<open>objects\<close> counts the \<open>IdleNode\<close> objects obtained from
  \<open>butil::get_object\<close> and not yet given back by \<open>butil::return_object\<close>.
\<close>

record pool =
  FLAGS_rdma_memory_pool_initial_size_mb :: int
  FLAGS_rdma_memory_pool_increase_size_mb :: int
  FLAGS_rdma_memory_pool_max_regions :: int
  FLAGS_rdma_memory_pool_buckets :: int
  DEFAULT_BLOCK_SIZE :: nat
  g_buckets :: nat
  g_max_regions :: nat
  g_regions :: "Region list"
  g_region_num :: nat
  g_cb :: "Callback option"
  g_block_size :: "nat list"
  g_info :: bool
  idle_list :: "nat \<Rightarrow> nat \<Rightarrow> IdleNode list"
  ready_list :: "nat \<Rightarrow> IdleNode list"
  errno :: errno_t
  heap :: "(nat \<times> nat) list"
  objects :: nat

text \<open>
  What the collaborators answer during one call of an operation:
  \<open>e_rand\<close> is the value of \<open>butil::fast_rand()\<close>;
  \<open>e_memalign n\<close> is the address \<open>posix_memalign\<close> stores for a request of
  \<open>n\<close> bytes, \<open>None\<close> when it reports an error;
  \<open>e_objs\<close> is the number of calls of \<open>butil::get_object\<close> that succeed before
  the object pool is exhausted;
  \<open>e_new\<close> tells whether \<open>new (std::nothrow) GlobalInfo\<close> succeeds.
\<close>

record env =
  e_rand :: nat
  e_memalign :: "nat \<Rightarrow> nat option"
  e_objs :: nat
  e_new :: bool

definition u64 :: "nat \<Rightarrow> nat" where
  "u64 x = x mod 2 ^ 64"

definition BYTES_IN_MB :: nat where
  "BYTES_IN_MB = 1048576"

definition MAX_REGIONS :: nat where
  "MAX_REGIONS = 16"

definition BLOCK_SIZE_COUNT :: nat where
  "BLOCK_SIZE_COUNT = 4"

text \<open>The statically initialised globals, for given flag values and base block size.\<close>

definition static_pool :: "int \<Rightarrow> int \<Rightarrow> int \<Rightarrow> int \<Rightarrow> nat \<Rightarrow> pool" where
  "static_pool initial_mb increase_mb max_regions buckets bsize =
     \<lparr> FLAGS_rdma_memory_pool_initial_size_mb = initial_mb,
       FLAGS_rdma_memory_pool_increase_size_mb = increase_mb,
       FLAGS_rdma_memory_pool_max_regions = max_regions,
       FLAGS_rdma_memory_pool_buckets = buckets,
       DEFAULT_BLOCK_SIZE = bsize,
       g_buckets = 1,
       g_max_regions = MAX_REGIONS,
       g_regions = replicate MAX_REGIONS \<lparr> r_start = 0, r_size = 0, r_block_type = 0, r_id = 0 \<rparr>,
       g_region_num = 0,
       g_cb = None,
       g_block_size = replicate BLOCK_SIZE_COUNT 0,
       g_info = False,
       idle_list = (\<lambda>_ _. []),
       ready_list = (\<lambda>_. []),
       errno = E0,
       heap = [],
       objects = 0 \<rparr>"

subsection \<open>Reverse lookup\<close>

text \<open>
  The loop of \<open>GetRegion\<close> over \<open>g_regions[0 .. g_max_regions)\<close>: it stops at the
  first entry whose start is 0 and at the first entry that contains the address.
\<close>

fun scan_regions :: "nat \<Rightarrow> Region list \<Rightarrow> Region option" where
  "scan_regions addr [] = None"
| "scan_regions addr (r # rs) =
     (if r_start r = 0 then None
      else if r_start r \<le> addr \<and> addr < u64 (r_start r + r_size r) then Some r
      else scan_regions addr rs)"

definition GetRegion :: "nat \<Rightarrow> pool \<Rightarrow> Region option \<times> pool" where
  "GetRegion buf s =
     (if buf = 0 then (None, s\<lparr>errno := EINVAL\<rparr>)
      else (scan_regions buf (take (g_max_regions s) (g_regions s)), s))"

definition GetRegionId :: "nat \<Rightarrow> pool \<Rightarrow> 32 word \<times> pool" where
  "GetRegionId buf s =
     (case GetRegion buf s of
        (None, s') \<Rightarrow> (0, s')
      | (Some r, s') \<Rightarrow> (r_id r, s'))"

definition GetBlockType :: "nat \<Rightarrow> pool \<Rightarrow> int \<times> pool" where
  "GetBlockType buf s =
     (case GetRegion buf s of
        (None, s') \<Rightarrow> (- 1, s')
      | (Some r, s') \<Rightarrow> (int (r_block_type r), s'))"

definition GetRegionNum :: "pool \<Rightarrow> nat" where
  "GetRegionNum s = g_region_num s"

subsection \<open>Extending the pool by a region\<close>

text \<open>
  The loop that obtains one \<open>IdleNode\<close> per bucket: \<open>acquire_nodes k i avail objs\<close>
  has \<open>k\<close> nodes still to get, holds \<open>i\<close> nodes, and \<open>avail\<close> further calls of
  \<open>get_object\<close> succeed. On a shortage the \<open>i\<close> nodes held are returned.
\<close>

fun acquire_nodes :: "nat \<Rightarrow> nat \<Rightarrow> nat \<Rightarrow> nat \<Rightarrow> bool \<times> nat" where
  "acquire_nodes 0 i avail objs = (True, objs)"
| "acquire_nodes (Suc k) i avail objs =
     (if avail = 0 then (False, objs - i)
      else acquire_nodes k (Suc i) (avail - 1) (Suc objs))"

text \<open>The loop that fills the nodes and pushes them, one after the other, onto the ready list.\<close>

definition push_ready :: "nat \<Rightarrow> nat \<Rightarrow> nat \<Rightarrow> IdleNode list \<Rightarrow> IdleNode list" where
  "push_ready base region_size buckets rl =
     foldl (\<lambda>l i. \<lparr> start = u64 (base + u64 (i * (region_size div buckets))),
                     len = region_size div buckets \<rparr> # l) rl [0..<buckets]"

text \<open>
  \<open>ExtendBlockPool\<close> returns the base of the new region, 0 for \<open>NULL\<close>. The result is
  \<open>None\<close> when the process stops: at a division by zero in the size computation, or at
  the call of a null \<open>g_cb\<close>.
\<close>

definition regularize :: "nat \<Rightarrow> nat \<Rightarrow> nat \<Rightarrow> nat" where
  "regularize region_size bsize buckets =
     u64 (u64 (region_size * BYTES_IN_MB) div bsize div buckets * u64 (bsize * buckets))"

definition ExtendBlockPool :: "env \<Rightarrow> nat \<Rightarrow> nat \<Rightarrow> pool \<Rightarrow> (nat \<times> pool) option" where
  "ExtendBlockPool e region_size block_type s =
     (if region_size < 64 then Some (0, s\<lparr>errno := EINVAL\<rparr>)
      else if g_region_num s = g_max_regions s then Some (0, s\<lparr>errno := ENOMEM\<rparr>)
      else if g_block_size s ! block_type = 0 \<or> g_buckets s = 0 then None
      else
        let rsize = regularize region_size (g_block_size s ! block_type) (g_buckets s) in
        case e_memalign e rsize of
          None \<Rightarrow> Some (0, s)
        | Some region_base \<Rightarrow>
            let s1 = s\<lparr>heap := (region_base, rsize) # heap s\<rparr> in
            case g_cb s1 of
              None \<Rightarrow> None
            | Some cb \<Rightarrow>
                let id = cb region_base rsize in
                if id = 0 then Some (0, s1\<lparr>heap := remove1 (region_base, rsize) (heap s1)\<rparr>)
                else
                  case acquire_nodes (g_buckets s1) 0 (e_objs e) (objects s1) of
                    (False, objs) \<Rightarrow>
                      Some (0, s1\<lparr>objects := objs,
                                  heap := remove1 (region_base, rsize) (heap s1)\<rparr>)
                  | (True, objs) \<Rightarrow>
                      Some (region_base,
                        s1\<lparr>objects := objs,
                           g_regions := list_update (g_regions s1) (g_region_num s1)
                              \<lparr> r_start = region_base, r_size = rsize,
                                r_block_type = block_type, r_id = id \<rparr>,
                           g_region_num := g_region_num s1 + 1,
                           ready_list := fun_upd (ready_list s1) block_type
                              (push_ready region_base rsize (g_buckets s1)
                                 (ready_list s1 block_type))\<rparr>))"

subsection \<open>Initialisation\<close>

text \<open>
  \<open>InitBlockPool cb\<close>, with \<open>None\<close> for a null callback. The conversion of the
  \<open>int\<close> flag to the \<open>size_t\<close> parameter of \<open>ExtendBlockPool\<close> is \<open>size_t_of_int\<close>.
\<close>

definition size_t_of_int :: "int \<Rightarrow> nat" where
  "size_t_of_int i = nat (i mod 2 ^ 64)"

definition InitBlockPool :: "env \<Rightarrow> Callback option \<Rightarrow> pool \<Rightarrow> (nat \<times> pool) option" where
  "InitBlockPool e cb s =
     (if cb = None then Some (0, s\<lparr>errno := EINVAL\<rparr>)
      else if g_cb s \<noteq> None then Some (0, s\<lparr>errno := EINVAL\<rparr>)
      else
        let s1 = s\<lparr>g_cb := cb\<rparr>;
            s2 = (if FLAGS_rdma_memory_pool_max_regions s1 < 1
                  then s1\<lparr>FLAGS_rdma_memory_pool_max_regions := 1\<rparr> else s1);
            s3 = (if FLAGS_rdma_memory_pool_max_regions s2 < int (g_max_regions s2)
                  then s2\<lparr>g_max_regions := nat (FLAGS_rdma_memory_pool_max_regions s2)\<rparr> else s2);
            s4 = (if FLAGS_rdma_memory_pool_initial_size_mb s3 < 64
                  then s3\<lparr>FLAGS_rdma_memory_pool_initial_size_mb := 64\<rparr> else s3);
            s5 = (if FLAGS_rdma_memory_pool_increase_size_mb s4 < 64
                  then s4\<lparr>FLAGS_rdma_memory_pool_increase_size_mb := 64\<rparr> else s4);
            s6 = (if FLAGS_rdma_memory_pool_buckets s5 \<ge> 1
                  then s5\<lparr>g_buckets := nat (FLAGS_rdma_memory_pool_buckets s5)\<rparr> else s5)
        in
        if \<not> e_new e then Some (0, s6)
        else
          let s7 = s6\<lparr>g_info := True, idle_list := (\<lambda>_ _. []), ready_list := (\<lambda>_. [])\<rparr>;
              bsize = DEFAULT_BLOCK_SIZE s7;
              s8 = s7\<lparr>g_block_size := [bsize, u64 (bsize * 2), u64 (bsize * 4), u64 (bsize * 8)]\<rparr>
          in ExtendBlockPool e (size_t_of_int (FLAGS_rdma_memory_pool_initial_size_mb s8)) 0 s8)"

subsection \<open>Draining the ready list\<close>

text \<open>
  The index the source computes for an address of a region:
  \<open>((uintptr_t)addr - r->start) * g_buckets / r->size\<close>.
\<close>

definition bucket_index :: "pool \<Rightarrow> Region \<Rightarrow> nat \<Rightarrow> nat" where
  "bucket_index s r addr =
     u64 (u64 (addr + 2 ^ 64 - r_start r) * g_buckets s) div r_size r"

text \<open>
  The walk of \<open>PickReadyBlocks\<close> along the ready list. \<open>CHECK(r != NULL)\<close> stops the
  process when a node lies in no region.
\<close>

datatype walk = Abort | NotFound | Found IdleNode "IdleNode list"

fun pick_walk :: "pool \<Rightarrow> nat \<Rightarrow> IdleNode list \<Rightarrow> walk" where
  "pick_walk s index [] = NotFound"
| "pick_walk s index (node # rest) =
     (case fst (GetRegion (start node) s) of
        None \<Rightarrow> Abort
      | Some r \<Rightarrow>
          if bucket_index s r (start node) = index then Found node rest
          else (case pick_walk s index rest of
                  Found n rest' \<Rightarrow> Found n (node # rest')
                | w \<Rightarrow> w))"

definition set_idle :: "nat \<Rightarrow> nat \<Rightarrow> IdleNode list \<Rightarrow> pool \<Rightarrow> pool" where
  "set_idle block_type index l s =
     s\<lparr>idle_list := fun_upd (idle_list s) block_type (fun_upd (idle_list s block_type) index l)\<rparr>"

definition PickReadyBlocks :: "nat \<Rightarrow> nat \<Rightarrow> pool \<Rightarrow> pool option" where
  "PickReadyBlocks block_type index s =
     (case pick_walk s index (ready_list s block_type) of
        Abort \<Rightarrow> None
      | NotFound \<Rightarrow> Some s
      | Found node rest \<Rightarrow>
          Some ((set_idle block_type index [node] s)
                  \<lparr>ready_list := fun_upd (ready_list s) block_type rest\<rparr>))"

subsection \<open>Allocation\<close>

text \<open>
  The last part of \<open>AllocBlockFrom\<close>: take the first block of the head node. The node
  is advanced in place when it is longer than one block; otherwise it must be exactly
  one block long (\<open>CHECK\<close>), is unlinked and goes back to the object pool.
\<close>

definition take_block :: "nat \<Rightarrow> nat \<Rightarrow> pool \<Rightarrow> (nat \<times> pool) option" where
  "take_block block_type index s =
     (case idle_list s block_type index of
        [] \<Rightarrow> Some (0, s)
      | node # rest \<Rightarrow>
          let bs = g_block_size s ! block_type in
          if len node > bs then
            Some (start node,
                  set_idle block_type index
                    (\<lparr> start = u64 (start node + bs), len = len node - bs \<rparr> # rest) s)
          else if len node = bs then
            Some (start node, (set_idle block_type index rest s)\<lparr>objects := objects s - 1\<rparr>)
          else None)"

text \<open>
  \<open>AllocBlockFrom\<close>; \<open>None\<close> when the process stops at a \<open>CHECK\<close>, at a division by
  zero or at the use of a null \<open>g_info\<close>.
\<close>

definition AllocBlockFrom :: "env \<Rightarrow> nat \<Rightarrow> pool \<Rightarrow> (nat \<times> pool) option" where
  "AllocBlockFrom e block_type s =
     (if g_buckets s = 0 \<or> \<not> g_info s then None
      else
        let index = e_rand e mod g_buckets s in
        if idle_list s block_type index = [] then
          (case PickReadyBlocks block_type index s of
             None \<Rightarrow> None
           | Some s1 \<Rightarrow>
               if idle_list s1 block_type index = [] then
                 (case ExtendBlockPool e
                         (size_t_of_int (FLAGS_rdma_memory_pool_increase_size_mb s1))
                         block_type s1 of
                    None \<Rightarrow> None
                  | Some (p, s2) \<Rightarrow>
                      if p = 0 then Some (0, s2)
                      else (case PickReadyBlocks block_type index s2 of
                              None \<Rightarrow> None
                            | Some s3 \<Rightarrow> take_block block_type index s3))
               else take_block block_type index s1)
        else take_block block_type index s)"

text \<open>The loop of \<open>AllocBlock\<close> over the block types, up to its \<open>break\<close>.\<close>

fun first_fit :: "nat \<Rightarrow> nat list \<Rightarrow> nat \<Rightarrow> nat option" where
  "first_fit sz [] i = None"
| "first_fit sz (b # bs) i = (if sz \<le> b then Some i else first_fit sz bs (Suc i))"

definition AllocBlock :: "env \<Rightarrow> nat \<Rightarrow> pool \<Rightarrow> (nat \<times> pool) option" where
  "AllocBlock e sz s =
     (if sz = 0 \<or> sz > g_block_size s ! (BLOCK_SIZE_COUNT - 1) then
        Some (0, s\<lparr>errno := EINVAL\<rparr>)
      else
        case first_fit sz (take BLOCK_SIZE_COUNT (g_block_size s)) 0 of
          None \<Rightarrow> Some (0, s)
        | Some i \<Rightarrow> AllocBlockFrom e i s)"

subsection \<open>Deallocation\<close>

text \<open>
  \<open>DeallocBlock\<close> returns 0 or -1. \<open>None\<close> stands for an access to
  \<open>idle_list[block_type]\<close> beyond its \<open>g_buckets\<close> entries, or through a null
  \<open>g_info\<close>.
\<close>

definition DeallocBlock :: "env \<Rightarrow> nat \<Rightarrow> pool \<Rightarrow> (int \<times> pool) option" where
  "DeallocBlock e buf s =
     (if buf = 0 then Some (- 1, s\<lparr>errno := EINVAL\<rparr>)
      else
        case GetRegion buf s of
          (None, s1) \<Rightarrow> Some (- 1, s1\<lparr>errno := ERANGE\<rparr>)
        | (Some r, s1) \<Rightarrow>
            let block_type = r_block_type r;
                block_size = g_block_size s1 ! block_type
            in
            if e_objs e = 0 then Some (0, s1)
            else
              let s2 = s1\<lparr>objects := objects s1 + 1\<rparr>;
                  node = \<lparr> start = buf, len = block_size \<rparr>;
                  index = bucket_index s2 r buf
              in
              if \<not> g_info s2 \<or> index \<ge> g_buckets s2 then None
              else Some (0, set_idle block_type index
                               (node # idle_list s2 block_type index) s2))"

section \<open>Specification notions\<close>

subsection \<open>Installed regions and buckets in exact arithmetic\<close>

text \<open>
  The installed regions are the first \<open>g_region_num\<close> entries of \<open>g_regions\<close>. A region
  contains the addresses from its start up to, not including, its start plus its size.
  \<open>region_of\<close> and \<open>bucket_of\<close> are the lookup and the bucket of an address in exact
  arithmetic, as the specification words them:
  \<open>bucket_of addr = ((addr - region.start) * K) / region.size\<close>.
\<close>

definition installed :: "pool \<Rightarrow> Region list" where
  "installed s = take (g_region_num s) (g_regions s)"

definition contains :: "Region \<Rightarrow> nat \<Rightarrow> bool" where
  "contains r addr \<longleftrightarrow> r_start r \<le> addr \<and> addr < r_start r + r_size r"

definition region_of :: "pool \<Rightarrow> nat \<Rightarrow> Region option" where
  "region_of s addr = find (\<lambda>r. contains r addr) (installed s)"

definition bucket_of :: "pool \<Rightarrow> nat \<Rightarrow> nat option" where
  "bucket_of s addr =
     (case region_of s addr of
        None \<Rightarrow> None
      | Some r \<Rightarrow> Some ((addr - r_start r) * g_buckets s div r_size r))"

text \<open>
  The bucket the source computes for a node: the index of its start in the region
  \<open>GetRegion\<close> finds for it, \<open>None\<close> when there is no such region.
\<close>

definition node_bucket :: "pool \<Rightarrow> IdleNode \<Rightarrow> nat option" where
  "node_bucket s n =
     (case fst (GetRegion (start n) s) of
        None \<Rightarrow> None
      | Some r \<Rightarrow> Some (bucket_index s r (start n)))"

subsection \<open>What is assumed of the collaborators and of the configuration\<close>

text \<open>
  Two blocks of memory are separate when they do not overlap; a block of size 0 counts
  as one byte, as an allocator gives every live block an address of its own.
  \<open>memalign_ok e s\<close> is the contract of \<open>posix_memalign\<close> for one call: whatever the
  size asked for, a block it answers is not null, ends below \<open>2^64\<close> and is separate
  from every block that is live in \<open>s\<close>.
\<close>

definition separate :: "nat \<times> nat \<Rightarrow> nat \<times> nat \<Rightarrow> bool" where
  "separate a b \<longleftrightarrow>
     fst a + max 1 (snd a) \<le> fst b \<or> fst b + max 1 (snd b) \<le> fst a"

definition extent :: "Region \<Rightarrow> nat \<times> nat" where
  "extent r = (r_start r, r_size r)"

definition memalign_ok :: "env \<Rightarrow> pool \<Rightarrow> bool" where
  "memalign_ok e s \<longleftrightarrow>
     (\<forall>n b. e_memalign e n = Some b \<longrightarrow>
        b \<noteq> 0 \<and> b + max 1 n < 2 ^ 64 \<and> (\<forall>x \<in> set (heap s). separate (b, n) x))"

text \<open>
  \<open>config_ok\<close> bounds the configuration: the base block size is positive and eight
  times it fits 64 bits, and the number of buckets times the byte size of a region
  (for the initial and for the increase size, as \<open>InitBlockPool\<close> clamps them) fits 64
  bits, so that the product in the bucket computation of the source cannot wrap around.
\<close>

definition config_ok :: "pool \<Rightarrow> bool" where
  "config_ok s \<longleftrightarrow>
     0 < DEFAULT_BLOCK_SIZE s \<and> DEFAULT_BLOCK_SIZE s * 8 < 2 ^ 64 \<and> 1 \<le> g_buckets s \<and>
     (let k = (if FLAGS_rdma_memory_pool_buckets s \<ge> 1
               then nat (FLAGS_rdma_memory_pool_buckets s) else g_buckets s)
      in k * (nat (max 64 (FLAGS_rdma_memory_pool_initial_size_mb s)) * 2 ^ 20) < 2 ^ 64
       \<and> k * (nat (max 64 (FLAGS_rdma_memory_pool_increase_size_mb s)) * 2 ^ 20) < 2 ^ 64)"

subsection \<open>Reachable states\<close>

text \<open>
  The states of the pool: the statically initialised globals, under any configuration
  that is \<open>config_ok\<close>, and every state that a returning call of \<open>InitBlockPool\<close>,
  \<open>AllocBlock\<close>, \<open>DeallocBlock\<close> or \<open>PickReadyBlocks\<close> (on an empty idle list, as
  \<open>AllocBlockFrom\<close> calls it) leads to, \<open>posix_memalign\<close> keeping its contract.
\<close>

inductive reachable :: "pool \<Rightarrow> bool" where
  start: "config_ok (static_pool initial_mb increase_mb max_regions buckets bsize) \<Longrightarrow>
          reachable (static_pool initial_mb increase_mb max_regions buckets bsize)"
| init: "reachable s \<Longrightarrow> memalign_ok e s \<Longrightarrow> InitBlockPool e cb s = Some (p, s') \<Longrightarrow>
         reachable s'"
| alloc: "reachable s \<Longrightarrow> memalign_ok e s \<Longrightarrow> AllocBlock e sz s = Some (p, s') \<Longrightarrow>
          reachable s'"
| dealloc: "reachable s \<Longrightarrow> DeallocBlock e buf s = Some (rc, s') \<Longrightarrow> reachable s'"
| pick: "reachable s \<Longrightarrow> idle_list s c b = [] \<Longrightarrow> PickReadyBlocks c b s = Some s' \<Longrightarrow>
         reachable s'"

subsection \<open>The invariant\<close>

text \<open>
  An installed region is well formed when its start is not null, it ends below \<open>2^64\<close>,
  its lkey is not 0, its block type is one of the four, its size is a multiple of block
  size times buckets, that size times the buckets fits 64 bits, and its memory is live.
  The region table is well formed when it has 16 entries, the limit is between 1 and 16,
  the count is at most the limit, the entries from the count on have a null start, and
  the installed regions are well formed and pairwise separate.
\<close>

definition region_ok :: "pool \<Rightarrow> Region \<Rightarrow> bool" where
  "region_ok s r \<longleftrightarrow>
     r_start r \<noteq> 0 \<and> r_start r + max 1 (r_size r) < 2 ^ 64 \<and> r_id r \<noteq> 0
   \<and> r_block_type r < BLOCK_SIZE_COUNT
   \<and> g_block_size s ! r_block_type r * g_buckets s dvd r_size r
   \<and> r_size r * g_buckets s < 2 ^ 64
   \<and> extent r \<in> set (heap s)"

definition regions_inv :: "pool \<Rightarrow> bool" where
  "regions_inv s \<longleftrightarrow>
     length (g_regions s) = MAX_REGIONS
   \<and> 1 \<le> g_max_regions s \<and> g_max_regions s \<le> MAX_REGIONS
   \<and> g_region_num s \<le> g_max_regions s
   \<and> (\<forall>i < MAX_REGIONS. g_region_num s \<le> i \<longrightarrow> r_start (g_regions s ! i) = 0)
   \<and> (\<forall>r \<in> set (installed s). region_ok s r)
   \<and> (\<forall>r \<in> set (installed s). \<forall>r' \<in> set (installed s).
         r = r' \<or> separate (extent r) (extent r'))"

text \<open>
  A node on the ready list of class \<open>c\<close> is the \<open>j\<close>-th bucket extent of an installed
  region of class \<open>c\<close>. A node on the idle list of class \<open>c\<close> and bucket \<open>b\<close> starts in an
  installed region of class \<open>c\<close>, at an address of bucket \<open>b\<close>, and is either one block
  long (a deallocated block, or the last block of an extent) or the rest of the bucket
  extent \<open>b\<close> of that region, of several whole blocks.
\<close>

definition ready_ok :: "pool \<Rightarrow> nat \<Rightarrow> IdleNode \<Rightarrow> bool" where
  "ready_ok s c n \<longleftrightarrow>
     (\<exists>r \<in> set (installed s). r_block_type r = c
        \<and> (\<exists>j < g_buckets s. start n = r_start r + j * (r_size r div g_buckets s))
        \<and> len n = r_size r div g_buckets s)"

definition idle_ok :: "pool \<Rightarrow> nat \<Rightarrow> nat \<Rightarrow> IdleNode \<Rightarrow> bool" where
  "idle_ok s c b n \<longleftrightarrow>
     (\<exists>r \<in> set (installed s). r_block_type r = c \<and> contains r (start n)
        \<and> (start n - r_start r) * g_buckets s div r_size r = b
        \<and> (len n = g_block_size s ! c
           \<or> g_block_size s ! c dvd len n \<and> g_block_size s ! c < len n
             \<and> start n + len n = r_start r + (b + 1) * (r_size r div g_buckets s)))"

definition lists_inv :: "pool \<Rightarrow> bool" where
  "lists_inv s \<longleftrightarrow>
     (\<forall>c. \<forall>n \<in> set (ready_list s c). ready_ok s c n)
   \<and> (\<forall>c b. \<forall>n \<in> set (idle_list s c b). idle_ok s c b n)"

text \<open>
  Before a complete \<open>InitBlockPool\<close> the block sizes are 0 and there are no regions and
  no nodes; after it the callback and the bookkeeping exist, the block sizes are
  \<open>B, 2B, 4B, 8B\<close>, the size flags are clamped and \<open>g_buckets\<close> follows its flag.
\<close>

definition block_sizes :: "nat \<Rightarrow> nat list" where
  "block_sizes bsize = [bsize, bsize * 2, bsize * 4, bsize * 8]"

definition mode_inv :: "pool \<Rightarrow> bool" where
  "mode_inv s \<longleftrightarrow>
     config_ok s
   \<and> (g_block_size s = [0, 0, 0, 0] \<and> g_region_num s = 0
        \<and> (\<forall>c. ready_list s c = []) \<and> (\<forall>c b. idle_list s c b = [])
      \<or> g_cb s \<noteq> None \<and> g_info s
        \<and> g_block_size s = block_sizes (DEFAULT_BLOCK_SIZE s)
        \<and> 64 \<le> FLAGS_rdma_memory_pool_increase_size_mb s
        \<and> 64 \<le> FLAGS_rdma_memory_pool_initial_size_mb s
        \<and> (1 \<le> FLAGS_rdma_memory_pool_buckets s \<longrightarrow>
             g_buckets s = nat (FLAGS_rdma_memory_pool_buckets s)))"

definition pool_inv :: "pool \<Rightarrow> bool" where
  "pool_inv s \<longleftrightarrow> mode_inv s \<and> regions_inv s \<and> lists_inv s"

subsection \<open>Intermediate states of the operations\<close>

text \<open>The state after a successful extension by a region.\<close>

definition install_region :: "nat \<Rightarrow> nat \<Rightarrow> nat \<Rightarrow> 32 word \<Rightarrow> pool \<Rightarrow> pool" where
  "install_region base rsize bt lkey s =
     s\<lparr>heap := (base, rsize) # heap s,
       objects := objects s + g_buckets s,
       g_regions := list_update (g_regions s) (g_region_num s)
          \<lparr> r_start = base, r_size = rsize, r_block_type = bt, r_id = lkey \<rparr>,
       g_region_num := g_region_num s + 1,
       ready_list := fun_upd (ready_list s) bt
          (push_ready base rsize (g_buckets s) (ready_list s bt))\<rparr>"

text \<open>
  The states of \<open>InitBlockPool\<close>: \<open>clamp_flags\<close> after the flags have been clamped,
  \<open>prepare\<close> just before the first extension.
\<close>

definition clamp_flags :: "Callback option \<Rightarrow> pool \<Rightarrow> pool" where
  "clamp_flags cb s =
     s\<lparr>g_cb := cb,
       FLAGS_rdma_memory_pool_max_regions := max 1 (FLAGS_rdma_memory_pool_max_regions s),
       g_max_regions :=
         (if max 1 (FLAGS_rdma_memory_pool_max_regions s) < int (g_max_regions s)
          then nat (max 1 (FLAGS_rdma_memory_pool_max_regions s)) else g_max_regions s),
       FLAGS_rdma_memory_pool_initial_size_mb := max 64 (FLAGS_rdma_memory_pool_initial_size_mb s),
       FLAGS_rdma_memory_pool_increase_size_mb := max 64 (FLAGS_rdma_memory_pool_increase_size_mb s),
       g_buckets := (if FLAGS_rdma_memory_pool_buckets s \<ge> 1
                     then nat (FLAGS_rdma_memory_pool_buckets s) else g_buckets s)\<rparr>"

definition prepare :: "Callback option \<Rightarrow> pool \<Rightarrow> pool" where
  "prepare cb s =
     (clamp_flags cb s)\<lparr>g_info := True, idle_list := (\<lambda>_ _. []), ready_list := (\<lambda>_. []),
       g_block_size := [DEFAULT_BLOCK_SIZE s, u64 (DEFAULT_BLOCK_SIZE s * 2),
                        u64 (DEFAULT_BLOCK_SIZE s * 4), u64 (DEFAULT_BLOCK_SIZE s * 8)]\<rparr>"

section \<open>Concrete pools\<close>

text \<open>
  The configuration of the unit tests: 64 MiB regions, at most 16 of them, 4 buckets,
  blocks of 8192 bytes, and a callback that always answers 1. \<open>env_at base\<close> is a
  call in which \<open>posix_memalign\<close> answers \<open>base\<close>, \<open>fast_rand\<close> answers 0 and no
  allocation fails.
\<close>

definition dummy_cb :: Callback where
  "dummy_cb base n = 1"

definition env_at :: "nat \<Rightarrow> env" where
  "env_at base =
     \<lparr> e_rand = 0, e_memalign = (\<lambda>n. if n \<le> 2 ^ 30 then Some base else None),
       e_objs = 8, e_new = True \<rparr>"

definition test_pool :: pool where
  "test_pool = static_pool 64 64 16 4 8192"

text \<open>The globals as \<open>InitBlockPool\<close> leaves them just before its call of \<open>ExtendBlockPool\<close>.\<close>

definition prepared_pool :: pool where
  "prepared_pool =
     test_pool\<lparr>g_cb := Some dummy_cb, g_buckets := 4, g_info := True,
               g_block_size := [8192, 16384, 32768, 65536]\<rparr>"

text \<open>The pool after the first region, at address 4096, has been installed.\<close>

definition one_region_pool :: pool where
  "one_region_pool = install_region 4096 67108864 0 1 prepared_pool"

text \<open>The pool after one block of 8192 bytes has been allocated from bucket 0.\<close>

definition carved_pool :: pool where
  "carved_pool =
     one_region_pool\<lparr>
       idle_list := fun_upd (idle_list one_region_pool) 0
          (fun_upd (idle_list one_region_pool 0) 0 [\<lparr> start = 12288, len = 16769024 \<rparr>]),
       ready_list := fun_upd (ready_list one_region_pool) 0
          [\<lparr> start = 50335744, len = 16777216 \<rparr>, \<lparr> start = 33558528, len = 16777216 \<rparr>,
           \<lparr> start = 16781312, len = 16777216 \<rparr>]\<rparr>"

text \<open>
  A configuration with a single region allowed, before and after \<open>InitBlockPool\<close>.
\<close>

definition small_pool :: pool where
  "small_pool = static_pool 64 64 1 4 8192"

definition full_pool :: pool where
  "full_pool = install_region 4096 67108864 0 1 (prepare (Some dummy_cb) small_pool)"




section \<open>The allocation loop of the unit tests\<close>

text \<open>
  The loop \<open>for (i = 0; i < num; ++i) buf[i] = AllocBlock(size)\<close>:
  one call per element of the list of collaborator answers; the pointers are collected.
  \<open>envs_ok\<close> says that \<open>posix_memalign\<close> keeps its contract at every call of the loop,
  and \<open>alloc_summary\<close> gives the number of pointers, whether none of them is null, and
  the final region count.
\<close>

fun alloc_many :: "env list \<Rightarrow> nat \<Rightarrow> pool \<Rightarrow> (nat list \<times> pool) option" where
  "alloc_many [] sz s = Some ([], s)"
| "alloc_many (e # es) sz s =
     (case AllocBlock e sz s of
        None \<Rightarrow> None
      | Some (p, s') \<Rightarrow>
          (case alloc_many es sz s' of
             None \<Rightarrow> None
           | Some (ps, s'') \<Rightarrow> Some (p # ps, s'')))"

fun envs_ok :: "env list \<Rightarrow> nat \<Rightarrow> pool \<Rightarrow> bool" where
  "envs_ok [] sz s = True"
| "envs_ok (e # es) sz s =
     (memalign_ok e s \<and>
      (case AllocBlock e sz s of None \<Rightarrow> True | Some (p, s') \<Rightarrow> envs_ok es sz s'))"

definition alloc_summary :: "env list \<Rightarrow> nat \<Rightarrow> pool \<Rightarrow> (nat \<times> bool \<times> nat) option" where
  "alloc_summary es sz s =
     (case alloc_many es sz s of
        None \<Rightarrow> None
      | Some (ps, s') \<Rightarrow> Some (length ps, 0 \<notin> set ps, GetRegionNum s'))"

text \<open>
  The configuration of the test \<open>extend\<close>: one bucket, regions of 64 MiB, at most 16 of
  them, blocks of 8192 bytes. \<open>single_bucket_ready\<close> is the pool after \<open>InitBlockPool\<close>
  with the first region at address 4096, and \<open>fresh_env i\<close> is a call in which
  \<open>posix_memalign\<close> answers the address \<open>2^32 * (i + 1)\<close>.
\<close>

definition single_bucket_pool :: pool where
  "single_bucket_pool = static_pool 64 64 16 1 8192"

definition single_bucket_ready :: pool where
  "single_bucket_ready =
     install_region 4096 67108864 0 1 (prepare (Some dummy_cb) single_bucket_pool)"

definition fresh_env :: "nat \<Rightarrow> env" where
  "fresh_env i = env_at (2 ^ 32 * (i + 1))"

text \<open>
  The states of that scenario: \<open>stock c q k\<close> holds when \<open>q\<close> regions have been added
  after the first one, the ready list of class \<open>c\<close> is empty, and the idle list of
  class \<open>c\<close> is empty (\<open>k = 0\<close>) or is one node of \<open>k\<close> blocks.
\<close>

definition scen :: "pool \<Rightarrow> bool" where
  "scen s \<longleftrightarrow>
     pool_inv s \<and> g_buckets s = 1 \<and> g_info s
   \<and> g_block_size s = [8192, 16384, 32768, 65536]
   \<and> FLAGS_rdma_memory_pool_increase_size_mb s = 64
   \<and> g_max_regions s = 16 \<and> g_cb s \<noteq> None"

definition stock :: "nat \<Rightarrow> nat \<Rightarrow> nat \<Rightarrow> pool \<Rightarrow> bool" where
  "stock c q k s \<longleftrightarrow>
     scen s \<and> g_region_num s = 1 + q \<and> ready_list s c = []
   \<and> (if k = 0 then idle_list s c 0 = []
       else \<exists>n. idle_list s c 0 = [n] \<and> len n = k * g_block_size s ! c)"

section \<open>Properties of the operations\<close>

subsection \<open>Auxiliary facts about region extension\<close>

lemma regularize_exact:
  assumes raw: "region_size * BYTES_IN_MB < 2 ^ 64"
  shows "regularize region_size bs k = region_size * BYTES_IN_MB div (bs * k) * (bs * k)"
proof -
  let ?raw = "region_size * BYTES_IN_MB"
  have q: "u64 ?raw div bs div k = ?raw div (bs * k)"
    using raw by (simp add: u64_def div_mult2_eq)
  show ?thesis
  proof (cases "bs * k < 2 ^ 64")
    case True
    have "?raw div (bs * k) * (bs * k) \<le> ?raw" by simp
    with raw have "?raw div (bs * k) * (bs * k) < 2 ^ 64" by linarith
    with True q show ?thesis by (simp add: regularize_def u64_def)
  next
    case False
    with raw have "?raw < bs * k" by linarith
    then have "?raw div (bs * k) = 0" by simp
    with q show ?thesis by (simp add: regularize_def u64_def)
  qed
qed

lemma acquire_nodes_eq:
  "i \<le> objs \<Longrightarrow>
   acquire_nodes k i avail objs = (if k \<le> avail then (True, objs + k) else (False, objs - i))"
  by (induction k i avail objs rule: acquire_nodes.induct) auto

lemma push_ready_eq:
  "push_ready base rsize k rl =
     map (\<lambda>i. \<lparr> start = u64 (base + u64 (i * (rsize div k))), len = rsize div k \<rparr>)
       (rev [0..<k]) @ rl"
proof -
  have "foldl (\<lambda>l i. f i # l) rl xs = map f (rev xs) @ rl"
    for f :: "nat \<Rightarrow> IdleNode" and xs
    by (induction xs arbitrary: rl) auto
  then show ?thesis unfolding push_ready_def by (simp only:)
qed

lemma ExtendBlockPool_eq:
  "ExtendBlockPool e region_size bt s =
     (if region_size < 64 then Some (0, s\<lparr>errno := EINVAL\<rparr>)
      else if g_region_num s = g_max_regions s then Some (0, s\<lparr>errno := ENOMEM\<rparr>)
      else if g_block_size s ! bt = 0 \<or> g_buckets s = 0 then None
      else case e_memalign e (regularize region_size (g_block_size s ! bt) (g_buckets s)) of
          None \<Rightarrow> Some (0, s)
        | Some base \<Rightarrow>
           (case g_cb s of None \<Rightarrow> None
            | Some cb \<Rightarrow>
              if cb base (regularize region_size (g_block_size s ! bt) (g_buckets s)) = 0
                 \<or> e_objs e < g_buckets s
              then Some (0, s)
              else Some (base, install_region base
                     (regularize region_size (g_block_size s ! bt) (g_buckets s)) bt
                     (cb base (regularize region_size (g_block_size s ! bt) (g_buckets s))) s)))"
  by (simp add: ExtendBlockPool_def Let_def acquire_nodes_eq install_region_def
           split: option.split)

lemma ExtendBlockPool_success:
  assumes ext: "ExtendBlockPool e region_size bt s = Some (p, s')" and p: "p \<noteq> 0"
  obtains cb where "g_cb s = Some cb" and "64 \<le> region_size"
    and "g_region_num s \<noteq> g_max_regions s"
    and "g_block_size s ! bt \<noteq> 0" and "g_buckets s \<noteq> 0"
    and "e_memalign e (regularize region_size (g_block_size s ! bt) (g_buckets s)) = Some p"
    and "cb p (regularize region_size (g_block_size s ! bt) (g_buckets s)) \<noteq> 0"
    and "g_buckets s \<le> e_objs e"
    and "s' = install_region p (regularize region_size (g_block_size s ! bt) (g_buckets s)) bt
                (cb p (regularize region_size (g_block_size s ! bt) (g_buckets s))) s"
  using ext p unfolding ExtendBlockPool_eq
  by (auto split: if_splits option.splits)

lemma prepared_extend:
  "ExtendBlockPool (env_at 4096) 64 0 prepared_pool =
     Some (4096, install_region 4096 67108864 0 1 prepared_pool)"
  by (simp add: ExtendBlockPool_eq prepared_pool_def test_pool_def static_pool_def env_at_def
        regularize_def u64_def BYTES_IN_MB_def MAX_REGIONS_def dummy_cb_def)

subsection \<open>Region size regularization\<close>

text \<open>
  Claim C5. When \<open>ExtendBlockPool size_mb c\<close> installs a region, and \<open>size_mb\<close> MiB is a
  byte count that fits \<open>size_t\<close> (the callers pass 32-bit flags), the size of the region
  is \<open>floor (size_mb * 2^20 / (class_size c * K)) * class_size c * K\<close>. It is a multiple
  of \<open>class_size c * K\<close>, and each of the \<open>K\<close> nodes pushed onto the ready list has the
  length \<open>size / K\<close>, which is a multiple of \<open>class_size c\<close>, with \<open>K\<close> such extents
  filling the region exactly.
\<close>

theorem region_size_regularized:
  assumes ext: "ExtendBlockPool e size_mb c s = Some (p, s')" and p: "p \<noteq> 0"
    and raw: "size_mb * BYTES_IN_MB < 2 ^ 64"
    and slot: "g_region_num s < length (g_regions s)"
  shows "g_region_num s' = g_region_num s + 1
    \<and> r_size (g_regions s' ! g_region_num s) =
        size_mb * 2 ^ 20 div (g_block_size s ! c * g_buckets s) * (g_block_size s ! c * g_buckets s)
    \<and> g_block_size s ! c * g_buckets s dvd r_size (g_regions s' ! g_region_num s)
    \<and> g_block_size s ! c dvd r_size (g_regions s' ! g_region_num s) div g_buckets s
    \<and> r_size (g_regions s' ! g_region_num s) div g_buckets s * g_buckets s =
         r_size (g_regions s' ! g_region_num s)
    \<and> (\<forall>n \<in> set (take (g_buckets s) (ready_list s' c)).
          len n = r_size (g_regions s' ! g_region_num s) div g_buckets s)"
proof -
  let ?cs = "g_block_size s ! c" and ?k = "g_buckets s"
  let ?rs = "regularize size_mb ?cs ?k"
  from ext p obtain cb where
    k: "?k \<noteq> 0" and cs: "?cs \<noteq> 0" and
    s': "s' = install_region p ?rs c (cb p ?rs) s"
    by (rule ExtendBlockPool_success)
  have rs: "?rs = size_mb * 2 ^ 20 div (?cs * ?k) * (?cs * ?k)"
    using regularize_exact [OF raw] by (simp add: BYTES_IN_MB_def)
  have size: "r_size (g_regions s' ! g_region_num s) = ?rs"
    using slot by (simp add: s' install_region_def)
  have d1: "?cs * ?k dvd ?rs" by (simp add: rs)
  have "?rs div ?k = size_mb * 2 ^ 20 div (?cs * ?k) * ?cs"
    using k by (simp add: rs)
  then have d2: "?cs dvd ?rs div ?k" by simp
  have d3: "?rs div ?k * ?k = ?rs"
    using d1 by (metis dvd_div_mult_self dvd_mult_right)
  have nodes: "\<forall>n \<in> set (take ?k (ready_list s' c)). len n = ?rs div ?k"
    by (auto simp: s' install_region_def push_ready_eq)
  have num: "g_region_num s' = g_region_num s + 1"
    by (simp add: s' install_region_def)
  show ?thesis
    using rs d1 d2 d3 nodes num unfolding size by simp
qed

theorem region_size_regularized_witness:
  "ExtendBlockPool (env_at 4096) 64 0 prepared_pool =
     Some (4096, install_region 4096 67108864 0 1 prepared_pool)
   \<and> r_size (g_regions (install_region 4096 67108864 0 1 prepared_pool) ! 0) =
       64 * 2 ^ 20 div (8192 * 4) * (8192 * 4)
   \<and> map len (take 4 (ready_list (install_region 4096 67108864 0 1 prepared_pool) 0)) =
       [16777216, 16777216, 16777216, 16777216]"
proof -
  have raw: "(64::nat) * BYTES_IN_MB < 2 ^ 64"
    by (simp add: BYTES_IN_MB_def)
  have slot: "g_region_num prepared_pool < length (g_regions prepared_pool)"
    by (simp add: prepared_pool_def test_pool_def static_pool_def MAX_REGIONS_def)
  have p: "(4096::nat) \<noteq> 0" by simp
  have vals: "g_region_num prepared_pool = 0" "g_block_size prepared_pool ! 0 = 8192"
    "g_buckets prepared_pool = 4"
    by (simp_all add: prepared_pool_def test_pool_def static_pool_def)
  have sz: "r_size (g_regions (install_region 4096 67108864 0 1 prepared_pool) ! 0) = 67108864"
    by (simp add: install_region_def prepared_pool_def test_pool_def static_pool_def
          MAX_REGIONS_def)
  have nodes: "map len (take 4 (ready_list (install_region 4096 67108864 0 1 prepared_pool) 0)) =
       [16777216, 16777216, 16777216, 16777216]"
    by (simp add: install_region_def push_ready_eq prepared_pool_def test_pool_def
          static_pool_def upt_rec)
  show ?thesis
    using region_size_regularized [OF prepared_extend p raw slot] prepared_extend nodes
    unfolding vals sz by simp
qed

subsection \<open>A failed extension leaves the pool as it was\<close>

text \<open>
  Claim C4. When \<open>ExtendBlockPool\<close> has obtained backing memory and then fails, because
  the registration callback answers 0 or because fewer than \<open>K\<close> nodes can be had from
  the object pool, it returns \<open>NULL\<close> and the whole state is the one before the call:
  the region count, the regions, the ready and idle lists, the list of live memory
  blocks (the backing memory has been freed) and the count of nodes held (those
  acquired have been returned).
\<close>

theorem failed_extension_unchanged:
  assumes "64 \<le> region_size" and "g_region_num s \<noteq> g_max_regions s"
    and "g_block_size s ! bt \<noteq> 0" and "g_buckets s \<noteq> 0"
    and "g_cb s = Some cb"
    and "e_memalign e (regularize region_size (g_block_size s ! bt) (g_buckets s)) = Some base"
    and "cb base (regularize region_size (g_block_size s ! bt) (g_buckets s)) = 0
         \<or> e_objs e < g_buckets s"
  shows "ExtendBlockPool e region_size bt s = Some (0, s)"
  using assms by (simp add: ExtendBlockPool_eq)

theorem failed_extension_unchanged_witness:
  "ExtendBlockPool ((env_at 4096)\<lparr>e_objs := 3\<rparr>) 64 0 prepared_pool = Some (0, prepared_pool)
   \<and> ExtendBlockPool (env_at 4096) 64 0 (prepared_pool\<lparr>g_cb := Some (\<lambda>b n. 0)\<rparr>) =
       Some (0, prepared_pool\<lparr>g_cb := Some (\<lambda>b n. 0)\<rparr>)"
proof -
  have reg: "regularize 64 8192 4 = 67108864"
    by (simp add: regularize_def u64_def BYTES_IN_MB_def)
  have a: "ExtendBlockPool ((env_at 4096)\<lparr>e_objs := 3\<rparr>) 64 0 prepared_pool
             = Some (0, prepared_pool)"
    by (rule failed_extension_unchanged [where cb = dummy_cb and base = 4096])
       (simp_all add: prepared_pool_def test_pool_def static_pool_def MAX_REGIONS_def
          env_at_def reg)
  have b: "ExtendBlockPool (env_at 4096) 64 0 (prepared_pool\<lparr>g_cb := Some (\<lambda>b n. 0)\<rparr>) =
       Some (0, prepared_pool\<lparr>g_cb := Some (\<lambda>b n. 0)\<rparr>)"
    by (rule failed_extension_unchanged [where cb = "\<lambda>b n. 0" and base = 4096])
       (simp_all add: prepared_pool_def test_pool_def static_pool_def MAX_REGIONS_def
          env_at_def reg)
  from a b show ?thesis by simp
qed

subsection \<open>Evaluating the concrete pools\<close>

lemma replicate_16: "replicate 16 z = z # replicate 15 z"
proof -
  have e: "(16::nat) = Suc 15" by simp
  show ?thesis by (subst e) (rule replicate_Suc)
qed

lemma scan_regions_zero: "r_start z = 0 \<Longrightarrow> scan_regions a (replicate n z) = None"
  by (cases n) simp_all

lemma one_region_fields:
  "g_buckets one_region_pool = 4"
  "g_max_regions one_region_pool = 16"
  "g_region_num one_region_pool = 1"
  "g_regions one_region_pool =
     \<lparr> r_start = 4096, r_size = 67108864, r_block_type = 0, r_id = 1 \<rparr>
       # replicate 15 \<lparr> r_start = 0, r_size = 0, r_block_type = 0, r_id = 0 \<rparr>"
  "ready_list one_region_pool 0 =
     [\<lparr> start = 50335744, len = 16777216 \<rparr>, \<lparr> start = 33558528, len = 16777216 \<rparr>,
      \<lparr> start = 16781312, len = 16777216 \<rparr>, \<lparr> start = 4096, len = 16777216 \<rparr>]"
  "idle_list one_region_pool c b = []"
  by (simp_all add: one_region_pool_def install_region_def prepared_pool_def test_pool_def
        static_pool_def MAX_REGIONS_def push_ready_eq upt_rec u64_def replicate_16)

lemma one_region_buckets:
  "node_bucket one_region_pool \<lparr> start = 50335744, len = 16777216 \<rparr> = Some 3"
  "node_bucket one_region_pool \<lparr> start = 33558528, len = 16777216 \<rparr> = Some 2"
  "node_bucket one_region_pool \<lparr> start = 16781312, len = 16777216 \<rparr> = Some 1"
  "node_bucket one_region_pool \<lparr> start = 4096, len = 16777216 \<rparr> = Some 0"
  by (simp_all add: node_bucket_def GetRegion_def one_region_fields bucket_index_def u64_def
        scan_regions_zero)

subsection \<open>Draining the ready list\<close>

lemma pick_walk_Found:
  "pick_walk s idx rl = Found n rest \<Longrightarrow>
   \<exists>pre post. rl = pre @ n # post \<and> rest = pre @ post \<and> node_bucket s n = Some idx
     \<and> (\<forall>m \<in> set pre. node_bucket s m \<noteq> Some idx)"
proof (induction rl arbitrary: rest)
  case Nil
  then show ?case by simp
next
  case (Cons a rl)
  show ?case
  proof (cases "node_bucket s a = Some idx")
    case True
    with Cons.prems have "n = a" "rest = rl"
      by (auto simp: node_bucket_def split: option.splits)
    with True show ?thesis by (intro exI [of _ "[]"] exI [of _ rl]) simp
  next
    case False
    with Cons.prems obtain rest' where w: "pick_walk s idx rl = Found n rest'"
      and rest: "rest = a # rest'"
      by (auto simp: node_bucket_def split: option.splits walk.splits if_splits)
    from Cons.IH [OF w] obtain pre post where
      "rl = pre @ n # post" "rest' = pre @ post" "node_bucket s n = Some idx"
      "\<forall>m \<in> set pre. node_bucket s m \<noteq> Some idx"
      by blast
    with False rest show ?thesis
      by (intro exI [of _ "a # pre"] exI [of _ post]) simp
  qed
qed



text \<open>
  The walk in terms of the bucket the source computes. When \<open>GetRegion\<close> finds a
  region for every node of \<open>ready_list[bt]\<close> and \<open>idle_list[bt][idx]\<close> is empty,
  \<open>PickReadyBlocks bt idx\<close> returns; the first node whose computed bucket is \<open>idx\<close>
  is moved, and without such a node the state is unchanged. A node for which
  \<open>GetRegion\<close> finds no region stops the walk.
\<close>

lemma pick_walk_stray:
  assumes "\<forall>m \<in> set pre. node_bucket s m \<noteq> None \<and> node_bucket s m \<noteq> Some idx"
    and "node_bucket s n = None"
  shows "pick_walk s idx (pre @ n # post) = Abort"
  using assms
  by (induction pre) (auto simp: node_bucket_def split: option.splits)


subsection \<open>Reverse lookup on a well-formed region table\<close>

lemma scan_regions_find:
  assumes "\<forall>r \<in> set rs. r_start r \<noteq> 0 \<and> r_start r + r_size r < 2 ^ 64"
  shows "scan_regions a (rs @ zs) =
           (case find (\<lambda>r. contains r a) rs of Some r \<Rightarrow> Some r | None \<Rightarrow> scan_regions a zs)"
  using assms by (induction rs) (auto simp: contains_def u64_def)

lemma scan_regions_stop: "zs = [] \<or> r_start (hd zs) = 0 \<Longrightarrow> scan_regions a zs = None"
  by (cases zs) auto

lemma region_ok_nowrap:
  assumes "region_ok s r"
  shows "r_start r \<noteq> 0 \<and> r_start r + r_size r < 2 ^ 64"
proof -
  from assms have "r_start r \<noteq> 0" "r_start r + max 1 (r_size r) < 2 ^ 64"
    by (simp_all add: region_ok_def)
  moreover have "r_size r \<le> max 1 (r_size r)" by simp
  ultimately show ?thesis by linarith
qed

lemma installed_nowrap:
  "regions_inv s \<Longrightarrow> r \<in> set (installed s) \<Longrightarrow>
   r_start r \<noteq> 0 \<and> r_start r + r_size r < 2 ^ 64"
  by (rule region_ok_nowrap [of s]) (simp add: regions_inv_def)

lemma take_max_regions:
  assumes "regions_inv s"
  shows "take (g_max_regions s) (g_regions s) =
           installed s @ take (g_max_regions s - g_region_num s) (drop (g_region_num s) (g_regions s))"
proof -
  from assms have "g_region_num s \<le> g_max_regions s" by (simp add: regions_inv_def)
  then have "g_max_regions s = g_region_num s + (g_max_regions s - g_region_num s)" by simp
  then have "take (g_max_regions s) (g_regions s) =
      take (g_region_num s + (g_max_regions s - g_region_num s)) (g_regions s)"
    by simp
  then show ?thesis unfolding installed_def by (simp only: take_add)
qed

lemma rest_stops:
  assumes "regions_inv s"
  defines "zs \<equiv> take (g_max_regions s - g_region_num s) (drop (g_region_num s) (g_regions s))"
  shows "zs = [] \<or> r_start (hd zs) = 0"
proof (cases "zs = []")
  case False
  then have lt: "g_region_num s < g_max_regions s" "g_region_num s < length (g_regions s)"
    by (auto simp: zs_def)
  then have "hd zs = g_regions s ! g_region_num s"
    by (simp add: zs_def hd_drop_conv_nth)
  moreover from assms(1) lt have "r_start (g_regions s ! g_region_num s) = 0"
    by (simp add: regions_inv_def)
  ultimately show ?thesis by simp
qed simp

lemma region_of_zero:
  assumes "regions_inv s" shows "region_of s 0 = None"
proof -
  from assms have "\<forall>r \<in> set (installed s). r_start r \<noteq> 0"
    using installed_nowrap by blast
  then show ?thesis
    by (auto simp: region_of_def find_None_iff contains_def)
qed

lemma GetRegion_region_of:
  assumes inv: "regions_inv s"
  shows "fst (GetRegion a s) = region_of s a"
proof (cases "a = 0")
  case True
  with region_of_zero [OF inv] show ?thesis by (simp add: GetRegion_def)
next
  case False
  have ok: "\<forall>r \<in> set (installed s). r_start r \<noteq> 0 \<and> r_start r + r_size r < 2 ^ 64"
    using installed_nowrap [OF inv] by blast
  have "scan_regions a (take (g_max_regions s) (g_regions s)) = region_of s a"
    unfolding take_max_regions [OF inv] scan_regions_find [OF ok]
    using scan_regions_stop [OF rest_stops [OF inv]]
    by (simp add: region_of_def split: option.split)
  with False show ?thesis by (simp add: GetRegion_def)
qed

lemma region_of_SomeD:
  "region_of s a = Some r \<Longrightarrow> r \<in> set (installed s) \<and> contains r a"
  by (auto simp: region_of_def find_Some_iff)

lemma separate_not_both:
  assumes "separate (extent r) (extent r')" "contains r a" "contains r' a"
  shows False
proof -
  have "r_size r \<le> max 1 (r_size r)" "r_size r' \<le> max 1 (r_size r')" by simp_all
  with assms show False
    unfolding separate_def extent_def contains_def fst_conv snd_conv by linarith
qed

lemma contains_unique:
  assumes "regions_inv s" "r \<in> set (installed s)" "r' \<in> set (installed s)"
    "contains r a" "contains r' a"
  shows "r = r'"
proof (rule ccontr)
  assume "r \<noteq> r'"
  with assms(1-3) have "separate (extent r) (extent r')"
    unfolding regions_inv_def by blast
  from this assms(4,5) show False by (rule separate_not_both)
qed

lemma region_of_SomeI:
  assumes inv: "regions_inv s" and r: "r \<in> set (installed s)" "contains r a"
  shows "region_of s a = Some r"
proof (cases "region_of s a")
  case None
  with r show ?thesis by (auto simp: region_of_def find_None_iff)
next
  case (Some r')
  from region_of_SomeD [OF Some] have "r' \<in> set (installed s)" "contains r' a" by simp_all
  with contains_unique [OF inv r(1) _ r(2)] have "r = r'" by blast
  with Some show ?thesis by simp
qed

lemma mod_sub_wrap: "b \<le> a \<Longrightarrow> a - b < n \<Longrightarrow> (a + n - b) mod n = a - (b::nat)"
proof -
  assume le: "b \<le> a" and lt: "a - b < n"
  from le have "a + n - b = (a - b) + n" by simp
  then have "(a + n - b) mod n = ((a - b) + n) mod n" by (simp only:)
  also have "\<dots> = (a - b) mod n" by (rule mod_add_self2)
  also have "\<dots> = a - b" using lt by (rule mod_less)
  finally show ?thesis .
qed

lemma u64_id: "x < 2 ^ 64 \<Longrightarrow> u64 x = x"
  unfolding u64_def by (rule mod_less)

lemma bucket_index_eq:
  assumes "region_ok s r" "contains r a"
  shows "bucket_index s r a = (a - r_start r) * g_buckets s div r_size r"
proof -
  from assms have le: "r_start r \<le> a" and lt: "a - r_start r < r_size r"
    by (auto simp: contains_def)
  from assms(1) have b: "r_size r * g_buckets s < 2 ^ 64"
    by (simp add: region_ok_def)
  from region_ok_nowrap [OF assms(1)] have b2: "r_start r + r_size r < 2 ^ 64" by simp
  have "a - r_start r < 2 ^ 64" using lt b2 by linarith
  with le have sub: "u64 (a + 2 ^ 64 - r_start r) = a - r_start r"
    unfolding u64_def by (rule mod_sub_wrap)
  have "(a - r_start r) * g_buckets s \<le> r_size r * g_buckets s"
    using lt by (simp add: mult_le_mono1)
  with b have "(a - r_start r) * g_buckets s < 2 ^ 64" by linarith
  then have "u64 ((a - r_start r) * g_buckets s) = (a - r_start r) * g_buckets s"
    by (rule u64_id)
  then show ?thesis unfolding bucket_index_def sub by (simp only:)
qed


lemma bucket_lt:
  assumes "contains r a" "0 < k"
  shows "(a - r_start r) * k div r_size r < k"
proof -
  from assms have lt: "a - r_start r < r_size r" by (auto simp: contains_def)
  then have "(a - r_start r) * k < k * r_size r" using assms(2) by (simp add: mult.commute)
  then show ?thesis by (rule less_mult_imp_div_less)
qed

subsection \<open>The invariant is kept by every operation\<close>

lemma installed_install_region:
  assumes "g_region_num s < length (g_regions s)"
  shows "installed (install_region p rs bt lkey s) =
           installed s @ [\<lparr> r_start = p, r_size = rs, r_block_type = bt, r_id = lkey \<rparr>]"
  using assms by (simp add: installed_def install_region_def take_Suc_conv_app_nth)

lemma install_region_fields:
  "g_buckets (install_region p rs bt lkey s) = g_buckets s"
  "g_block_size (install_region p rs bt lkey s) = g_block_size s"
  "g_max_regions (install_region p rs bt lkey s) = g_max_regions s"
  "g_region_num (install_region p rs bt lkey s) = Suc (g_region_num s)"
  "heap (install_region p rs bt lkey s) = (p, rs) # heap s"
  "idle_list (install_region p rs bt lkey s) = idle_list s"
  "g_cb (install_region p rs bt lkey s) = g_cb s"
  "g_info (install_region p rs bt lkey s) = g_info s"
  "length (g_regions (install_region p rs bt lkey s)) = length (g_regions s)"
  by (simp_all add: install_region_def)

lemma region_ok_mono:
  assumes "region_ok s r" "g_buckets s' = g_buckets s" "g_block_size s' = g_block_size s"
    "set (heap s) \<subseteq> set (heap s')"
  shows "region_ok s' r"
  using assms unfolding region_ok_def by auto

lemma ready_ok_mono:
  assumes "ready_ok s c n" "g_buckets s' = g_buckets s"
    "set (installed s) \<subseteq> set (installed s')"
  shows "ready_ok s' c n"
  using assms unfolding ready_ok_def by auto

lemma idle_ok_mono:
  assumes "idle_ok s c b n" "g_buckets s' = g_buckets s" "g_block_size s' = g_block_size s"
    "set (installed s) \<subseteq> set (installed s')"
  shows "idle_ok s' c b n"
  using assms unfolding idle_ok_def by auto

lemma separate_sym: "separate a b \<Longrightarrow> separate b a"
  unfolding separate_def by blast

lemma regions_inv_install:
  assumes inv: "regions_inv s" and room: "g_region_num s \<noteq> g_max_regions s"
    and p: "p \<noteq> 0" "p + max 1 rs < 2 ^ 64" and lkey: "lkey \<noteq> 0"
    and bt: "bt < BLOCK_SIZE_COUNT"
    and dvd: "g_block_size s ! bt * g_buckets s dvd rs"
    and small: "rs * g_buckets s < 2 ^ 64"
    and fresh: "\<forall>x \<in> set (heap s). separate (p, rs) x"
  shows "regions_inv (install_region p rs bt lkey s)"
proof -
  let ?s' = "install_region p rs bt lkey s"
  let ?r = "\<lparr> r_start = p, r_size = rs, r_block_type = bt, r_id = lkey \<rparr>"
  from inv room have lt: "g_region_num s < g_max_regions s"
    and len: "length (g_regions s) = MAX_REGIONS" and mx: "g_max_regions s \<le> MAX_REGIONS"
    and one: "1 \<le> g_max_regions s"
    by (simp_all add: regions_inv_def)
  then have slot: "g_region_num s < length (g_regions s)" by simp
  note inst = installed_install_region [OF slot, of p rs bt lkey]
  have new_ok: "region_ok ?s' ?r"
    using p lkey bt dvd small
    by (simp add: region_ok_def install_region_fields extent_def)
  have old_ok: "region_ok ?s' r" if "r \<in> set (installed s)" for r
  proof (rule region_ok_mono)
    from inv that show "region_ok s r" by (simp add: regions_inv_def)
  qed (auto simp: install_region_fields)
  have old_sep: "separate (extent ?r) (extent r)" if "r \<in> set (installed s)" for r
  proof -
    from inv that have "region_ok s r" by (simp add: regions_inv_def)
    then have "extent r \<in> set (heap s)" by (simp add: region_ok_def)
    with fresh show ?thesis by (simp add: extent_def)
  qed
  have zeros: "\<forall>i < MAX_REGIONS. g_region_num ?s' \<le> i \<longrightarrow> r_start (g_regions ?s' ! i) = 0"
  proof (intro allI impI)
    fix i assume "i < MAX_REGIONS" "g_region_num ?s' \<le> i"
    then have "g_region_num s < i" by (simp add: install_region_fields)
    with inv \<open>i < MAX_REGIONS\<close> show "r_start (g_regions ?s' ! i) = 0"
      by (simp add: install_region_def regions_inv_def)
  qed
  have all_ok: "\<forall>r \<in> set (installed ?s'). region_ok ?s' r"
    unfolding inst using new_ok old_ok by auto
  have sep: "\<forall>r \<in> set (installed ?s'). \<forall>r' \<in> set (installed ?s').
         r = r' \<or> separate (extent r) (extent r')"
  proof (intro ballI)
    fix r r' assume r: "r \<in> set (installed ?s')" and r': "r' \<in> set (installed ?s')"
    show "r = r' \<or> separate (extent r) (extent r')"
    proof (cases "r = ?r")
      case True
      show ?thesis
      proof (cases "r' = ?r")
        case True with \<open>r = ?r\<close> show ?thesis by simp
      next
        case False
        with r' have "r' \<in> set (installed s)" unfolding inst by simp
        from old_sep [OF this] True show ?thesis by simp
      qed
    next
      case False
      with r have rin: "r \<in> set (installed s)" unfolding inst by simp
      show ?thesis
      proof (cases "r' = ?r")
        case True
        from separate_sym [OF old_sep [OF rin]] True show ?thesis by simp
      next
        case False
        with r' have "r' \<in> set (installed s)" unfolding inst by simp
        with inv rin show ?thesis unfolding regions_inv_def by blast
      qed
    qed
  qed
  show ?thesis
    unfolding regions_inv_def
    using len one mx lt zeros all_ok sep by (simp add: install_region_fields)
qed

lemma extent_offset_le:
  assumes "i < k" shows "i * (rs div k) \<le> (rs::nat)"
proof -
  from assms have "i * (rs div k) \<le> k * (rs div k)" by (simp add: mult_le_mono1)
  also have "\<dots> \<le> rs" by simp
  finally show ?thesis .
qed

lemma new_node_start:
  assumes "i < k" "p + max 1 rs < 2 ^ 64"
  shows "u64 (p + u64 (i * (rs div k))) = p + i * (rs div k)"
proof -
  have "rs \<le> max 1 rs" by simp
  with extent_offset_le [OF assms(1), of rs] assms(2)
  have a: "i * (rs div k) < 2 ^ 64" and b: "p + i * (rs div k) < 2 ^ 64" by linarith+
  show ?thesis unfolding u64_id [OF a] by (rule u64_id [OF b])
qed

lemma lists_inv_install:
  assumes inv: "lists_inv s" and slot: "g_region_num s < length (g_regions s)"
    and p: "p + max 1 rs < 2 ^ 64"
  shows "lists_inv (install_region p rs bt lkey s)"
proof -
  let ?s' = "install_region p rs bt lkey s"
  let ?r = "\<lparr> r_start = p, r_size = rs, r_block_type = bt, r_id = lkey \<rparr>"
  let ?k = "g_buckets s"
  note inst = installed_install_region [OF slot, of p rs bt lkey]
  have sub: "set (installed s) \<subseteq> set (installed ?s')" unfolding inst by auto
  have new: "ready_ok ?s' bt \<lparr> start = u64 (p + u64 (i * (rs div ?k))), len = rs div ?k \<rparr>"
    if "i < ?k" for i
    unfolding ready_ok_def inst new_node_start [OF that p] install_region_fields
    using that by (intro bexI [of _ ?r]) auto
  have ready: "ready_ok ?s' c n" if "n \<in> set (ready_list ?s' c)" for c n
  proof (cases "n \<in> set (ready_list s c)")
    case True
    with inv have "ready_ok s c n" by (simp add: lists_inv_def)
    then show ?thesis by (rule ready_ok_mono) (simp_all add: install_region_fields sub)
  next
    case False
    with that have "c = bt" and "n \<in> set (push_ready p rs ?k (ready_list s bt))"
      by (auto simp: install_region_def split: if_splits)
    with False obtain i where "i < ?k"
      "n = \<lparr> start = u64 (p + u64 (i * (rs div ?k))), len = rs div ?k \<rparr>"
      by (auto simp: push_ready_eq)
    with new \<open>c = bt\<close> show ?thesis by simp
  qed
  have idle: "idle_ok ?s' c b n" if "n \<in> set (idle_list ?s' c b)" for c b n
  proof -
    from that inv have "idle_ok s c b n" by (simp add: lists_inv_def install_region_fields)
    then show ?thesis by (rule idle_ok_mono) (simp_all add: install_region_fields sub)
  qed
  from ready idle show ?thesis unfolding lists_inv_def by blast
qed

text \<open>A ready node that the walk assigns to a bucket is a proper idle node of that bucket.\<close>

lemma ready_to_idle:
  assumes inv: "regions_inv s" and rdy: "ready_ok s c n"
    and nb: "node_bucket s n = Some idx"
  shows "idle_ok s c idx n"
proof -
  let ?k = "g_buckets s"
  from rdy obtain r j where r: "r \<in> set (installed s)" "r_block_type r = c"
    and j: "j < ?k" "start n = r_start r + j * (r_size r div ?k)"
    and ln: "len n = r_size r div ?k"
    unfolding ready_ok_def by blast
  let ?e = "r_size r div ?k"
  from nb obtain r' where g: "fst (GetRegion (start n) s) = Some r'"
    and bi: "bucket_index s r' (start n) = idx"
    by (auto simp: node_bucket_def split: option.splits)
  from g have "region_of s (start n) = Some r'" by (simp add: GetRegion_region_of [OF inv])
  from region_of_SomeD [OF this] have r': "r' \<in> set (installed s)" "contains r' (start n)"
    by simp_all
  from inv r(1) have ok: "region_ok s r" by (simp add: regions_inv_def)
  then have d: "g_block_size s ! c * ?k dvd r_size r" using r(2) by (simp add: region_ok_def)
  then have kd: "?k dvd r_size r" by (rule dvd_mult_right)
  then have sz: "?e * ?k = r_size r" by simp
  have cd: "g_block_size s ! c dvd ?e"
  proof -
    from d obtain q where q: "r_size r = g_block_size s ! c * ?k * q" by (auto elim: dvdE)
    with j(1) have "?e = g_block_size s ! c * q" by simp
    then show ?thesis by simp
  qed
  have epos: "0 < ?e"
  proof (rule ccontr)
    assume "\<not> 0 < ?e"
    then have z: "r_size r = 0" using sz by simp
    with j(2) \<open>\<not> 0 < ?e\<close> have st: "start n = r_start r" by simp
    have "r \<noteq> r'" using r'(2) z by (auto simp: contains_def)
    with inv r(1) r'(1) have "separate (extent r) (extent r')"
      unfolding regions_inv_def by blast
    with r'(2) st z show False
      by (auto simp: separate_def extent_def contains_def)
  qed
  have sz': "?k * ?e = r_size r" using kd by simp
  have "j * ?e < ?k * ?e" using j(1) epos by simp
  then have "j * ?e < r_size r" unfolding sz' .
  then have inr: "contains r (start n)"
    unfolding contains_def j(2) by simp
  from contains_unique [OF inv r(1) r'(1) inr r'(2)] have same: "r' = r" by simp
  have "idx = (start n - r_start r) * ?k div r_size r"
    using bucket_index_eq [OF ok inr] bi same by simp
  also have "\<dots> = j * ?e * ?k div (?e * ?k)" using j(2) sz by simp
  also have "\<dots> = j" using epos j(1) by simp
  finally have idx: "idx = j" .
  have fin: "start n + len n = r_start r + (idx + 1) * ?e"
    using j(2) ln idx by simp
  have "g_block_size s ! c \<le> ?e" using cd epos by (simp add: dvd_imp_le)
  then have shape: "len n = g_block_size s ! c
      \<or> g_block_size s ! c dvd len n \<and> g_block_size s ! c < len n
        \<and> start n + len n = r_start r + (idx + 1) * ?e"
    using cd ln fin by auto
  have "(start n - r_start r) * ?k div r_size r = idx"
    using bucket_index_eq [OF ok inr] bi same by simp
  with r inr shape show ?thesis unfolding idle_ok_def by blast
qed

lemma replicate_4: "replicate 4 x = [x, x, x, x]"
  by (simp add: numeral_eq_Suc)

lemma installed_frame:
  "installed (s\<lparr>idle_list := il\<rparr>) = installed s"
  "installed (s\<lparr>ready_list := rl\<rparr>) = installed s"
  "installed (s\<lparr>errno := er\<rparr>) = installed s"
  "installed (s\<lparr>objects := ob\<rparr>) = installed s"
  by (simp_all add: installed_def)

lemma region_ok_frame:
  "region_ok (s\<lparr>idle_list := il\<rparr>) = region_ok s"
  "region_ok (s\<lparr>ready_list := rl\<rparr>) = region_ok s"
  "region_ok (s\<lparr>errno := er\<rparr>) = region_ok s"
  "region_ok (s\<lparr>objects := ob\<rparr>) = region_ok s"
  by (simp_all add: region_ok_def fun_eq_iff)

lemma regions_inv_frame:
  "regions_inv (s\<lparr>idle_list := il\<rparr>) = regions_inv s"
  "regions_inv (s\<lparr>ready_list := rl\<rparr>) = regions_inv s"
  "regions_inv (s\<lparr>errno := er\<rparr>) = regions_inv s"
  "regions_inv (s\<lparr>objects := ob\<rparr>) = regions_inv s"
  by (simp_all add: regions_inv_def installed_frame region_ok_frame)

lemma config_ok_frame:
  "config_ok (s\<lparr>idle_list := il\<rparr>) = config_ok s"
  "config_ok (s\<lparr>ready_list := rl\<rparr>) = config_ok s"
  "config_ok (s\<lparr>errno := er\<rparr>) = config_ok s"
  "config_ok (s\<lparr>objects := ob\<rparr>) = config_ok s"
  by (simp_all add: config_ok_def)

lemma ready_ok_frame:
  "ready_ok (s\<lparr>idle_list := il\<rparr>) = ready_ok s"
  "ready_ok (s\<lparr>ready_list := rl\<rparr>) = ready_ok s"
  "ready_ok (s\<lparr>errno := er\<rparr>) = ready_ok s"
  "ready_ok (s\<lparr>objects := ob\<rparr>) = ready_ok s"
  by (simp_all add: ready_ok_def installed_frame fun_eq_iff)

lemma idle_ok_frame:
  "idle_ok (s\<lparr>idle_list := il\<rparr>) = idle_ok s"
  "idle_ok (s\<lparr>ready_list := rl\<rparr>) = idle_ok s"
  "idle_ok (s\<lparr>errno := er\<rparr>) = idle_ok s"
  "idle_ok (s\<lparr>objects := ob\<rparr>) = idle_ok s"
  by (simp_all add: idle_ok_def installed_frame fun_eq_iff)

lemmas frame = installed_frame region_ok_frame regions_inv_frame config_ok_frame
  ready_ok_frame idle_ok_frame

lemma pool_inv_errno: "pool_inv (s\<lparr>errno := er\<rparr>) = pool_inv s"
  by (simp add: pool_inv_def mode_inv_def lists_inv_def frame)

lemma pool_inv_objects: "pool_inv (s\<lparr>objects := ob\<rparr>) = pool_inv s"
  by (simp add: pool_inv_def mode_inv_def lists_inv_def frame)

text \<open>A pool whose block sizes are still zero has empty lists.\<close>

lemma mode_inv_lists:
  assumes "mode_inv s" "ready_list s c \<noteq> [] \<or> idle_list s c b \<noteq> []"
  shows "g_cb s \<noteq> None \<and> g_info s \<and> g_block_size s = block_sizes (DEFAULT_BLOCK_SIZE s)"
  using assms unfolding mode_inv_def by auto

lemma pool_inv_set_lists:
  assumes inv: "pool_inv s"
    and init: "g_block_size s = block_sizes (DEFAULT_BLOCK_SIZE s)" "0 < g_block_size s ! 0"
    and rl: "\<forall>c. \<forall>n \<in> set (rl c). ready_ok s c n"
    and il: "\<forall>c b. \<forall>n \<in> set (il c b). idle_ok s c b n"
  shows "pool_inv (s\<lparr>idle_list := il, ready_list := rl\<rparr>)"
proof -
  from init have nz: "g_block_size s \<noteq> [0, 0, 0, 0]"
    by (auto simp: block_sizes_def)
  with inv have "mode_inv (s\<lparr>idle_list := il, ready_list := rl\<rparr>)"
    by (simp add: pool_inv_def mode_inv_def frame)
  moreover from inv have "regions_inv (s\<lparr>idle_list := il, ready_list := rl\<rparr>)"
    by (simp add: pool_inv_def frame)
  moreover from rl il have "lists_inv (s\<lparr>idle_list := il, ready_list := rl\<rparr>)"
    by (simp add: lists_inv_def frame)
  ultimately show ?thesis by (simp add: pool_inv_def)
qed

lemma block_sizes_pos:
  assumes "mode_inv s" "g_block_size s = block_sizes (DEFAULT_BLOCK_SIZE s)"
  shows "0 < g_block_size s ! 0"
  using assms by (simp add: mode_inv_def config_ok_def block_sizes_def)

lemma mode_inv_initialised:
  assumes "mode_inv s"
    and "g_region_num s \<noteq> 0 \<or> ready_list s c \<noteq> [] \<or> idle_list s c b \<noteq> []
         \<or> g_block_size s \<noteq> [0, 0, 0, 0]"
  shows "g_block_size s = block_sizes (DEFAULT_BLOCK_SIZE s) \<and> 0 < g_block_size s ! 0"
  using assms unfolding mode_inv_def config_ok_def block_sizes_def by auto

lemma pool_inv_PickReadyBlocks:
  assumes inv: "pool_inv s" and run: "PickReadyBlocks bt idx s = Some s'"
  shows "pool_inv s'"
proof (cases "pick_walk s idx (ready_list s bt)")
  case Abort
  with run show ?thesis by (simp add: PickReadyBlocks_def)
next
  case NotFound
  with run inv show ?thesis by (simp add: PickReadyBlocks_def)
next
  case (Found n rest)
  from pick_walk_Found [OF Found] obtain pre post where
    d: "ready_list s bt = pre @ n # post" "rest = pre @ post" "node_bucket s n = Some idx"
    by blast
  from inv have m: "mode_inv s" and r: "regions_inv s" and l: "lists_inv s"
    by (simp_all add: pool_inv_def)
  from d(1) have "ready_list s bt \<noteq> []" by simp
  with mode_inv_initialised [OF m, of bt] have
    init: "g_block_size s = block_sizes (DEFAULT_BLOCK_SIZE s)" "0 < g_block_size s ! 0"
    by blast+
  from l d(1) have "ready_ok s bt n" by (simp add: lists_inv_def)
  from ready_to_idle [OF r this d(3)] have n: "idle_ok s bt idx n" .
  have s': "s' = s\<lparr>idle_list := fun_upd (idle_list s) bt (fun_upd (idle_list s bt) idx [n]),
                   ready_list := fun_upd (ready_list s) bt rest\<rparr>"
    using run Found by (simp add: PickReadyBlocks_def set_idle_def)
  show ?thesis unfolding s'
  proof (rule pool_inv_set_lists [OF inv init])
    show "\<forall>c. \<forall>m \<in> set ((fun_upd (ready_list s) bt rest) c). ready_ok s c m"
      using l d by (auto simp: lists_inv_def)
    show "\<forall>c b. \<forall>m \<in> set ((fun_upd (idle_list s) bt (fun_upd (idle_list s bt) idx [n])) c b).
            idle_ok s c b m"
      using l n by (auto simp: lists_inv_def)
  qed
qed

lemma idle_ok_advance:
  assumes inv: "regions_inv s" and ok: "idle_ok s c b n"
    and long: "g_block_size s ! c < len n" and k: "0 < g_buckets s"
  shows "idle_ok s c b \<lparr> start = u64 (start n + g_block_size s ! c),
                           len = len n - g_block_size s ! c \<rparr>"
proof -
  let ?k = "g_buckets s" and ?cs = "g_block_size s ! c"
  from ok long obtain r where r: "r \<in> set (installed s)" "r_block_type r = c"
    and inr: "contains r (start n)"
    and bk: "(start n - r_start r) * ?k div r_size r = b"
    and dv: "?cs dvd len n"
    and fin: "start n + len n = r_start r + (b + 1) * (r_size r div ?k)"
    unfolding idle_ok_def by auto
  let ?e = "r_size r div ?k"
  from inv r(1) have rok: "region_ok s r" by (simp add: regions_inv_def)
  then have "?cs * ?k dvd r_size r" using r(2) by (simp add: region_ok_def)
  then have "?k dvd r_size r" by (rule dvd_mult_right)
  then have sz: "?k * ?e = r_size r" by simp
  from bucket_lt [OF inr k] bk have "b < ?k" by simp
  then have "b + 1 \<le> ?k" by simp
  then have "(b + 1) * ?e \<le> ?k * ?e" by (rule mult_le_mono1)
  then have top: "(b + 1) * ?e \<le> r_size r" unfolding sz .
  from inr have le: "r_start r \<le> start n" and "start n < r_start r + r_size r"
    by (simp_all add: contains_def)
  then have "0 < r_size r" by linarith
  with sz have epos: "0 < ?e" by (cases "?e = 0") auto
  let ?a = "start n + ?cs"
  from long fin have lt: "?a < r_start r + (b + 1) * ?e" by linarith
  with top have inr': "?a < r_start r + r_size r" by linarith
  with region_ok_nowrap [OF rok] have "?a < 2 ^ 64" by linarith
  then have u: "u64 ?a = ?a" by (rule u64_id)
  from le inr' have c': "contains r ?a" by (simp add: contains_def)
  have "(start n - r_start r) * ?k div (?e * ?k) = b"
    using bk sz by (simp add: mult.commute)
  then have db: "(start n - r_start r) div ?e = b" using k by simp
  have "(start n - r_start r) div ?e * ?e \<le> start n - r_start r"
    by (rule div_times_less_eq_dividend)
  then have lo: "b * ?e \<le> start n - r_start r" unfolding db .
  have "(?a - r_start r) div ?e = b"
  proof (rule div_nat_eqI)
    from lo le have "b * ?e \<le> ?a - r_start r" by linarith
    then show "?e * b \<le> ?a - r_start r" by (simp add: mult.commute)
    from lt le have "?a - r_start r < (b + 1) * ?e" by linarith
    then show "?a - r_start r < ?e * Suc b" by (simp add: mult.commute)
  qed
  then have "(?a - r_start r) * ?k div (?e * ?k) = b" using k by simp
  then have bk': "(?a - r_start r) * ?k div r_size r = b"
    using sz by (simp add: mult.commute)
  have dv': "?cs dvd len n - ?cs" using dv by (simp add: dvd_diff_nat)
  have "0 < len n - ?cs" using long by simp
  with dv' have "?cs \<le> len n - ?cs" by (rule dvd_imp_le)
  moreover have "?a + (len n - ?cs) = r_start r + (b + 1) * ?e" using fin long by simp
  ultimately have shape: "len n - ?cs = ?cs
      \<or> ?cs dvd len n - ?cs \<and> ?cs < len n - ?cs
        \<and> ?a + (len n - ?cs) = r_start r + (b + 1) * ?e"
    using dv' by linarith
  show ?thesis
    unfolding idle_ok_def u using r c' bk' shape by (intro bexI [of _ r]) simp_all
qed

lemma pool_inv_take_block:
  assumes inv: "pool_inv s" and run: "take_block bt idx s = Some (p, s')"
  shows "pool_inv s'"
proof (cases "idle_list s bt idx")
  case Nil
  with run inv show ?thesis by (simp add: take_block_def)
next
  case (Cons n rest)
  from inv have m: "mode_inv s" and r: "regions_inv s" and l: "lists_inv s"
    by (simp_all add: pool_inv_def)
  from Cons have "idle_list s bt idx \<noteq> []" by simp
  with mode_inv_initialised [OF m, of bt idx] have
    init: "g_block_size s = block_sizes (DEFAULT_BLOCK_SIZE s)" "0 < g_block_size s ! 0"
    by blast+
  from m have k: "0 < g_buckets s" by (simp add: mode_inv_def config_ok_def)
  from l Cons have n: "idle_ok s bt idx n" and rest: "\<forall>m \<in> set rest. idle_ok s bt idx m"
    by (simp_all add: lists_inv_def)
  have rl: "\<forall>c. \<forall>m \<in> set (ready_list s c). ready_ok s c m"
    using l by (simp add: lists_inv_def)
  show ?thesis
  proof (cases "g_block_size s ! bt < len n")
    case True
    let ?n' = "\<lparr> start = u64 (start n + g_block_size s ! bt), len = len n - g_block_size s ! bt \<rparr>"
    from run Cons True have s': "s' = s\<lparr>idle_list :=
        fun_upd (idle_list s) bt (fun_upd (idle_list s bt) idx (?n' # rest)),
        ready_list := ready_list s\<rparr>"
      by (auto simp: take_block_def set_idle_def Let_def)
    from idle_ok_advance [OF r n True k] have "idle_ok s bt idx ?n'" .
    with rest l have "\<forall>c b. \<forall>m \<in> set ((fun_upd (idle_list s) bt
        (fun_upd (idle_list s bt) idx (?n' # rest))) c b). idle_ok s c b m"
      by (auto simp: lists_inv_def)
    from pool_inv_set_lists [OF inv init rl this] show ?thesis unfolding s' .
  next
    case False
    with run Cons have eq: "len n = g_block_size s ! bt"
      and s': "s' = (s\<lparr>idle_list :=
        fun_upd (idle_list s) bt (fun_upd (idle_list s bt) idx rest),
        ready_list := ready_list s\<rparr>)\<lparr>objects := objects s - 1\<rparr>"
      by (auto simp: take_block_def set_idle_def Let_def split: if_splits)
    from rest l have "\<forall>c b. \<forall>m \<in> set ((fun_upd (idle_list s) bt
        (fun_upd (idle_list s bt) idx rest)) c b). idle_ok s c b m"
      by (auto simp: lists_inv_def)
    from pool_inv_set_lists [OF inv init rl this] show ?thesis
      unfolding s' by (simp only: pool_inv_objects)
  qed
qed

lemma installed_nonempty: "r \<in> set (installed s) \<Longrightarrow> g_region_num s \<noteq> 0"
  by (cases "g_region_num s") (simp_all add: installed_def)

lemma DeallocBlock_eq:
  assumes inv: "pool_inv s"
  shows "DeallocBlock e buf s =
     (if buf = 0 then Some (- 1, s\<lparr>errno := EINVAL\<rparr>)
      else case region_of s buf of
          None \<Rightarrow> Some (- 1, s\<lparr>errno := ERANGE\<rparr>)
        | Some r \<Rightarrow>
            if e_objs e = 0 then Some (0, s)
            else Some (0, s\<lparr>objects := objects s + 1,
                   idle_list := fun_upd (idle_list s) (r_block_type r)
                     (fun_upd (idle_list s (r_block_type r))
                        ((buf - r_start r) * g_buckets s div r_size r)
                        (\<lparr> start = buf, len = g_block_size s ! r_block_type r \<rparr>
                           # idle_list s (r_block_type r)
                               ((buf - r_start r) * g_buckets s div r_size r)))\<rparr>))"
proof (cases "buf = 0")
  case True
  then show ?thesis by (simp add: DeallocBlock_def)
next
  case False
  from inv have m: "mode_inv s" and ri: "regions_inv s" by (simp_all add: pool_inv_def)
  have g: "GetRegion buf s = (region_of s buf, s)"
    using GetRegion_region_of [OF ri, of buf] False by (simp add: GetRegion_def)
  show ?thesis
  proof (cases "region_of s buf")
    case None
    with False g show ?thesis by (simp add: DeallocBlock_def)
  next
    case (Some r)
    from region_of_SomeD [OF Some] have r: "r \<in> set (installed s)" "contains r buf"
      by simp_all
    from ri r(1) have rok: "region_ok s r" by (simp add: regions_inv_def)
    from m have k: "0 < g_buckets s" by (simp add: mode_inv_def config_ok_def)
    from installed_nonempty [OF r(1)] m have info: "g_info s"
      by (auto simp: mode_inv_def)
    have bi: "bucket_index (s\<lparr>objects := ob\<rparr>) r buf =
        (buf - r_start r) * g_buckets s div r_size r" for ob
      using bucket_index_eq [OF rok r(2)] by (simp add: bucket_index_def)
    from bucket_lt [OF r(2) k] have lt: "(buf - r_start r) * g_buckets s div r_size r < g_buckets s" .
    show ?thesis
      using False g Some info lt
      by (simp add: DeallocBlock_def Let_def bi set_idle_def)
  qed
qed

lemma pool_inv_DeallocBlock:
  assumes inv: "pool_inv s" and run: "DeallocBlock e buf s = Some (rc, s')"
  shows "pool_inv s'"
proof -
  from inv have m: "mode_inv s" and ri: "regions_inv s" and l: "lists_inv s"
    by (simp_all add: pool_inv_def)
  show ?thesis
  proof (cases "buf \<noteq> 0 \<and> region_of s buf \<noteq> None \<and> e_objs e \<noteq> 0")
    case False
    with run inv show ?thesis
      unfolding DeallocBlock_eq [OF inv]
      by (auto simp: pool_inv_errno split: option.splits if_splits)
  next
    case True
    then obtain r where Some: "region_of s buf = Some r" by auto
    from region_of_SomeD [OF Some] have r: "r \<in> set (installed s)" "contains r buf"
      by simp_all
    let ?bt = "r_block_type r" and ?b = "(buf - r_start r) * g_buckets s div r_size r"
    let ?n = "\<lparr> start = buf, len = g_block_size s ! ?bt \<rparr>"
    from installed_nonempty [OF r(1)] mode_inv_initialised [OF m] have
      init: "g_block_size s = block_sizes (DEFAULT_BLOCK_SIZE s)" "0 < g_block_size s ! 0"
      by blast+
    have s': "s' = (s\<lparr>idle_list := fun_upd (idle_list s) ?bt
                     (fun_upd (idle_list s ?bt) ?b (?n # idle_list s ?bt ?b)),
                   ready_list := ready_list s\<rparr>)\<lparr>objects := objects s + 1\<rparr>"
      using run True Some unfolding DeallocBlock_eq [OF inv] by auto
    have "idle_ok s ?bt ?b ?n"
      unfolding idle_ok_def using r by (intro bexI [of _ r]) simp_all
    with l have il: "\<forall>c b. \<forall>m \<in> set ((fun_upd (idle_list s) ?bt
        (fun_upd (idle_list s ?bt) ?b (?n # idle_list s ?bt ?b))) c b). idle_ok s c b m"
      by (auto simp: lists_inv_def)
    have rl: "\<forall>c. \<forall>m \<in> set (ready_list s c). ready_ok s c m"
      using l by (simp add: lists_inv_def)
    from pool_inv_set_lists [OF inv init rl il] show ?thesis
      unfolding s' by (simp only: pool_inv_objects)
  qed
qed

lemma memalign_ok_heap: "heap s' = heap s \<Longrightarrow> memalign_ok e s' = memalign_ok e s"
  by (simp add: memalign_ok_def)

lemma regularize_le:
  assumes "region_size * BYTES_IN_MB < 2 ^ 64"
  shows "regularize region_size bs k \<le> region_size * BYTES_IN_MB"
  unfolding regularize_exact [OF assms] by (rule div_times_less_eq_dividend)

lemma regularize_dvd:
  assumes "region_size * BYTES_IN_MB < 2 ^ 64"
  shows "bs * k dvd regularize region_size bs k"
  unfolding regularize_exact [OF assms] by simp

lemma block_sizes_nth:
  "bt < BLOCK_SIZE_COUNT \<Longrightarrow> 0 < b \<Longrightarrow> 0 < block_sizes b ! bt"
  by (auto simp: block_sizes_def BLOCK_SIZE_COUNT_def nth_Cons' )

lemma config_ok_install: "config_ok (install_region p rs bt lkey s) = config_ok s"
  by (simp add: config_ok_def install_region_def)

lemma mode_inv_install:
  assumes "mode_inv s" "g_block_size s \<noteq> [0, 0, 0, 0]"
  shows "mode_inv (install_region p rs bt lkey s)"
  using assms unfolding mode_inv_def config_ok_install
  by (auto simp: install_region_def)

lemma pool_inv_ExtendBlockPool:
  assumes inv: "pool_inv s" and env: "memalign_ok e s"
    and init: "g_block_size s = block_sizes (DEFAULT_BLOCK_SIZE s)"
    and bt: "bt < BLOCK_SIZE_COUNT"
    and small: "g_buckets s * (region_size * BYTES_IN_MB) < 2 ^ 64"
    and run: "ExtendBlockPool e region_size bt s = Some (p, s')"
  shows "pool_inv s'"
proof (cases "s' = s \<or> s' = s\<lparr>errno := EINVAL\<rparr> \<or> s' = s\<lparr>errno := ENOMEM\<rparr>")
  case True
  with inv show ?thesis by (auto simp: pool_inv_errno)
next
  case False
  let ?cs = "g_block_size s ! bt" and ?k = "g_buckets s"
  let ?rs = "regularize region_size ?cs ?k"
  from run False obtain cb where room: "g_region_num s \<noteq> g_max_regions s"
    and mem: "e_memalign e ?rs = Some p" and key: "cb p ?rs \<noteq> 0"
    and s': "s' = install_region p ?rs bt (cb p ?rs) s"
    unfolding ExtendBlockPool_eq by (auto split: if_splits option.splits)
  from inv have m: "mode_inv s" and ri: "regions_inv s" and l: "lists_inv s"
    by (simp_all add: pool_inv_def)
  from m have k: "1 \<le> ?k" by (simp add: mode_inv_def config_ok_def)
  have "region_size * BYTES_IN_MB \<le> ?k * (region_size * BYTES_IN_MB)" using k by simp
  with small have raw: "region_size * BYTES_IN_MB < 2 ^ 64" by linarith
  from env mem have p: "p \<noteq> 0" "p + max 1 ?rs < 2 ^ 64"
    and fresh: "\<forall>x \<in> set (heap s). separate (p, ?rs) x"
    by (auto simp: memalign_ok_def)
  have "?rs * ?k \<le> region_size * BYTES_IN_MB * ?k"
    using regularize_le [OF raw] by (rule mult_le_mono1)
  also have "\<dots> = ?k * (region_size * BYTES_IN_MB)" by (rule mult.commute)
  finally have sm: "?rs * ?k < 2 ^ 64" using small by linarith
  from ri room have slot: "g_region_num s < length (g_regions s)"
    by (simp add: regions_inv_def)
  have r': "regions_inv s'" unfolding s'
    by (rule regions_inv_install [OF ri room p key bt regularize_dvd [OF raw] sm fresh])
  have l': "lists_inv s'" unfolding s'
    by (rule lists_inv_install [OF l slot p(2)])
  from m init have pos: "0 < DEFAULT_BLOCK_SIZE s" by (simp add: mode_inv_def config_ok_def)
  then have "g_block_size s \<noteq> [0, 0, 0, 0]" using init by (simp add: block_sizes_def)
  with m have m': "mode_inv s'"
    unfolding s' by (rule mode_inv_install)
  from m' r' l' show ?thesis by (simp add: pool_inv_def)
qed

lemma InitBlockPool_eq:
  "InitBlockPool e cb s =
     (if cb = None \<or> g_cb s \<noteq> None then Some (0, s\<lparr>errno := EINVAL\<rparr>)
      else if \<not> e_new e then Some (0, clamp_flags cb s)
      else ExtendBlockPool e
             (size_t_of_int (max 64 (FLAGS_rdma_memory_pool_initial_size_mb s))) 0
             (prepare cb s))"
  by (simp add: InitBlockPool_def Let_def clamp_flags_def prepare_def max_def)


lemma size_t_of_int_id: "0 \<le> i \<Longrightarrow> i < 2 ^ 64 \<Longrightarrow> size_t_of_int i = nat i"
  by (simp add: size_t_of_int_def)

lemma mult_bound_right:
  assumes "k * (n * m) < (b::nat)" "1 \<le> k" "0 < m"
  shows "n < b"
proof -
  have "n \<le> n * m" using assms(3) by simp
  also have "\<dots> \<le> k * (n * m)" using assms(2) by simp
  finally show ?thesis using assms(1) by linarith
qed

lemma size_t_of_flag:
  assumes "k * (nat (max 64 f) * 2 ^ 20) < 2 ^ 64" "1 \<le> k"
  shows "size_t_of_int (max 64 f) = nat (max 64 f)"
proof -
  from assms have "nat (max 64 f) < 2 ^ 64" by (rule mult_bound_right) simp
  then have "max 64 f < 2 ^ 64" by simp
  then show ?thesis by (intro size_t_of_int_id) simp_all
qed

lemma extend_bound:
  assumes m: "mode_inv s" and init: "g_block_size s \<noteq> [0, 0, 0, 0]"
  shows "g_buckets s * (size_t_of_int (FLAGS_rdma_memory_pool_increase_size_mb s) * BYTES_IN_MB)
           < 2 ^ 64"
proof -
  let ?f = "FLAGS_rdma_memory_pool_increase_size_mb s"
  from m init have f: "64 \<le> ?f"
    and kk: "1 \<le> FLAGS_rdma_memory_pool_buckets s \<longrightarrow>
             g_buckets s = nat (FLAGS_rdma_memory_pool_buckets s)"
    by (auto simp: mode_inv_def)
  from m have k: "1 \<le> g_buckets s" by (simp add: mode_inv_def config_ok_def)
  from m kk have b: "g_buckets s * (nat (max 64 ?f) * 2 ^ 20) < 2 ^ 64"
    by (auto simp: mode_inv_def config_ok_def Let_def split: if_splits)
  from f have mx: "max 64 ?f = ?f" by simp
  from size_t_of_flag [OF b k] b show ?thesis
    unfolding mx BYTES_IN_MB_def by simp
qed

lemma config_ok_cong:
  assumes "DEFAULT_BLOCK_SIZE s' = DEFAULT_BLOCK_SIZE s" "g_buckets s' = g_buckets s"
    "FLAGS_rdma_memory_pool_buckets s' = FLAGS_rdma_memory_pool_buckets s"
    "FLAGS_rdma_memory_pool_initial_size_mb s' = FLAGS_rdma_memory_pool_initial_size_mb s"
    "FLAGS_rdma_memory_pool_increase_size_mb s' = FLAGS_rdma_memory_pool_increase_size_mb s"
  shows "config_ok s' = config_ok s"
  unfolding config_ok_def assms ..

lemma config_ok_clamp:
  assumes "config_ok s"
  shows "config_ok (clamp_flags cb s)"
  using assms by (auto simp: config_ok_def clamp_flags_def Let_def split: if_splits)

lemma installed_empty: "g_region_num s = 0 \<Longrightarrow> installed s = []"
  by (simp add: installed_def)

lemma pool_inv_clamp:
  assumes inv: "pool_inv s" and fresh: "g_cb s = None"
  shows "pool_inv (clamp_flags cb s)"
proof -
  let ?s' = "clamp_flags cb s"
  from inv have m: "mode_inv s" and ri: "regions_inv s" by (simp_all add: pool_inv_def)
  from m fresh have z: "g_block_size s = [0, 0, 0, 0]" "g_region_num s = 0"
    "\<forall>c. ready_list s c = []" "\<forall>c b. idle_list s c b = []" and c: "config_ok s"
    by (auto simp: mode_inv_def)
  have f: "g_block_size ?s' = g_block_size s" "g_region_num ?s' = g_region_num s"
    "ready_list ?s' = ready_list s" "idle_list ?s' = idle_list s"
    "g_regions ?s' = g_regions s"
    by (simp_all add: clamp_flags_def)
  have m': "mode_inv ?s'"
    unfolding mode_inv_def f using z config_ok_clamp [OF c] by simp
  have e: "installed ?s' = []" by (rule installed_empty) (simp add: f z)
  have mx: "1 \<le> g_max_regions ?s' \<and> g_max_regions ?s' \<le> MAX_REGIONS"
    using ri by (auto simp: regions_inv_def clamp_flags_def)
  have r': "regions_inv ?s'"
    unfolding regions_inv_def e f using ri mx z(2) by (simp add: regions_inv_def)
  have l': "lists_inv ?s'"
    unfolding lists_inv_def f using z by simp
  from m' r' l' show ?thesis by (simp add: pool_inv_def)
qed

lemma prepare_block_sizes:
  assumes "DEFAULT_BLOCK_SIZE s * 8 < 2 ^ 64"
  shows "g_block_size (prepare cb s) = block_sizes (DEFAULT_BLOCK_SIZE s)"
proof -
  let ?b = "DEFAULT_BLOCK_SIZE s"
  from assms have "?b * 2 < 2 ^ 64" "?b * 4 < 2 ^ 64" by linarith+
  with assms have "u64 (?b * 2) = ?b * 2" "u64 (?b * 4) = ?b * 4" "u64 (?b * 8) = ?b * 8"
    by (simp_all only: u64_id)
  then show ?thesis by (simp add: prepare_def block_sizes_def)
qed

lemma pool_inv_prepare:
  assumes inv: "pool_inv s" and fresh: "g_cb s = None" and cb: "cb \<noteq> None"
  shows "pool_inv (prepare cb s)"
proof -
  let ?c = "clamp_flags cb s" and ?s' = "prepare cb s"
  from pool_inv_clamp [OF inv fresh, of cb] have m: "mode_inv ?c" and ri: "regions_inv ?c"
    by (simp_all add: pool_inv_def)
  from m have c: "config_ok ?c" by (simp add: mode_inv_def)
  from inv fresh have z: "g_region_num s = 0" by (auto simp: pool_inv_def mode_inv_def)
  have f: "g_region_num ?s' = 0" "ready_list ?s' = (\<lambda>_. [])" "idle_list ?s' = (\<lambda>_ _. [])"
    "g_regions ?s' = g_regions ?c" "g_max_regions ?s' = g_max_regions ?c"
    "g_cb ?s' = cb" "g_info ?s'" "DEFAULT_BLOCK_SIZE ?s' = DEFAULT_BLOCK_SIZE s"
    "g_region_num ?c = 0"
    by (simp_all add: prepare_def clamp_flags_def z)
  have "config_ok ?s' = config_ok ?c"
    by (rule config_ok_cong) (simp_all add: prepare_def)
  with c have c': "config_ok ?s'" by simp
  from c have "DEFAULT_BLOCK_SIZE s * 8 < 2 ^ 64" by (simp add: config_ok_def clamp_flags_def)
  note bs = prepare_block_sizes [OF this, of cb]
  have fl: "64 \<le> FLAGS_rdma_memory_pool_increase_size_mb ?s'"
    "64 \<le> FLAGS_rdma_memory_pool_initial_size_mb ?s'"
    "1 \<le> FLAGS_rdma_memory_pool_buckets ?s' \<longrightarrow>
       g_buckets ?s' = nat (FLAGS_rdma_memory_pool_buckets ?s')"
    by (simp_all add: prepare_def clamp_flags_def)
  have m': "mode_inv ?s'"
    unfolding mode_inv_def using c' cb f(6,7) fl bs by (simp add: f(8))
  have e: "installed ?s' = []" by (rule installed_empty) (rule f(1))
  have r': "regions_inv ?s'"
    unfolding regions_inv_def e f using ri by (simp add: regions_inv_def f)
  have l': "lists_inv ?s'" unfolding lists_inv_def f by simp
  from m' r' l' show ?thesis by (simp add: pool_inv_def)
qed

lemma pool_inv_InitBlockPool:
  assumes inv: "pool_inv s" and env: "memalign_ok e s"
    and run: "InitBlockPool e cb s = Some (p, s')"
  shows "pool_inv s'"
proof (cases "cb = None \<or> g_cb s \<noteq> None")
  case True
  with run inv show ?thesis unfolding InitBlockPool_eq by (auto simp: pool_inv_errno)
next
  case False
  then have fresh: "g_cb s = None" and cb: "cb \<noteq> None" by simp_all
  show ?thesis
  proof (cases "e_new e")
    case False
    with run fresh cb have "s' = clamp_flags cb s" unfolding InitBlockPool_eq by simp
    with pool_inv_clamp [OF inv fresh] show ?thesis by simp
  next
    case True
    let ?s = "prepare cb s"
    let ?f = "FLAGS_rdma_memory_pool_initial_size_mb s"
    from run True fresh cb have ext:
      "ExtendBlockPool e (size_t_of_int (max 64 ?f)) 0 ?s = Some (p, s')"
      unfolding InitBlockPool_eq by simp
    note pinv = pool_inv_prepare [OF inv fresh cb]
    from inv have c: "config_ok s" by (simp add: pool_inv_def mode_inv_def)
    then have b8: "DEFAULT_BLOCK_SIZE s * 8 < 2 ^ 64" by (simp add: config_ok_def)
    have bs: "g_block_size ?s = block_sizes (DEFAULT_BLOCK_SIZE ?s)"
      using prepare_block_sizes [OF b8, of cb] by (simp add: prepare_def clamp_flags_def)
    have k: "g_buckets ?s = (if FLAGS_rdma_memory_pool_buckets s \<ge> 1
               then nat (FLAGS_rdma_memory_pool_buckets s) else g_buckets s)"
      by (simp add: prepare_def clamp_flags_def)
    from c have k1: "1 \<le> g_buckets ?s" unfolding k by (auto simp: config_ok_def)
    from c have b: "g_buckets ?s * (nat (max 64 ?f) * 2 ^ 20) < 2 ^ 64"
      unfolding k by (simp add: config_ok_def Let_def)
    have small: "g_buckets ?s * (size_t_of_int (max 64 ?f) * BYTES_IN_MB) < 2 ^ 64"
      using b unfolding size_t_of_flag [OF b k1] BYTES_IN_MB_def by simp
    have env': "memalign_ok e ?s"
      using env by (simp add: memalign_ok_def prepare_def clamp_flags_def)
    have bt: "0 < BLOCK_SIZE_COUNT" by (simp add: BLOCK_SIZE_COUNT_def)
    from pool_inv_ExtendBlockPool [OF pinv env' bs bt small ext] show ?thesis .
  qed
qed

lemma PickReadyBlocks_frame:
  assumes "PickReadyBlocks bt idx s = Some s'"
  shows "heap s' = heap s \<and> g_block_size s' = g_block_size s \<and> g_buckets s' = g_buckets s
    \<and> FLAGS_rdma_memory_pool_increase_size_mb s' = FLAGS_rdma_memory_pool_increase_size_mb s
    \<and> g_region_num s' = g_region_num s \<and> g_regions s' = g_regions s
    \<and> g_max_regions s' = g_max_regions s \<and> errno s' = errno s"
  using assms by (auto simp: PickReadyBlocks_def set_idle_def split: walk.splits)

lemma AllocBlockFrom_SomeD:
  "AllocBlockFrom e bt s = Some x \<Longrightarrow> g_buckets s \<noteq> 0 \<and> g_info s"
  by (simp add: AllocBlockFrom_def split: if_splits)

lemma AllocBlockFrom_idle:
  assumes "g_buckets s \<noteq> 0" "g_info s" "idle_list s bt (e_rand e mod g_buckets s) \<noteq> []"
  shows "AllocBlockFrom e bt s = take_block bt (e_rand e mod g_buckets s) s"
  using assms by (simp add: AllocBlockFrom_def Let_def)

lemma AllocBlockFrom_abort:
  assumes "g_buckets s \<noteq> 0" "g_info s" "idle_list s bt (e_rand e mod g_buckets s) = []"
    "PickReadyBlocks bt (e_rand e mod g_buckets s) s = None"
  shows "AllocBlockFrom e bt s = None"
  using assms by (simp add: AllocBlockFrom_def Let_def)

lemma AllocBlockFrom_ready:
  assumes "g_buckets s \<noteq> 0" "g_info s" "idle_list s bt (e_rand e mod g_buckets s) = []"
    "PickReadyBlocks bt (e_rand e mod g_buckets s) s = Some s1"
    "idle_list s1 bt (e_rand e mod g_buckets s) \<noteq> []"
  shows "AllocBlockFrom e bt s = take_block bt (e_rand e mod g_buckets s) s1"
  using assms by (simp add: AllocBlockFrom_def Let_def)

lemma AllocBlockFrom_extend:
  assumes "g_buckets s \<noteq> 0" "g_info s" "idle_list s bt (e_rand e mod g_buckets s) = []"
    "PickReadyBlocks bt (e_rand e mod g_buckets s) s = Some s1"
    "idle_list s1 bt (e_rand e mod g_buckets s) = []"
  shows "AllocBlockFrom e bt s =
     (case ExtendBlockPool e (size_t_of_int (FLAGS_rdma_memory_pool_increase_size_mb s1)) bt s1 of
        None \<Rightarrow> None
      | Some (q, s2) \<Rightarrow>
          if q = 0 then Some (0, s2)
          else (case PickReadyBlocks bt (e_rand e mod g_buckets s) s2 of
                  None \<Rightarrow> None
                | Some s3 \<Rightarrow> take_block bt (e_rand e mod g_buckets s) s3))"
  using assms by (simp add: AllocBlockFrom_def Let_def)

lemma pool_inv_AllocBlockFrom:
  assumes inv: "pool_inv s" and env: "memalign_ok e s"
    and init: "g_block_size s \<noteq> [0, 0, 0, 0]" and bt: "bt < BLOCK_SIZE_COUNT"
    and run: "AllocBlockFrom e bt s = Some (p, s')"
  shows "pool_inv s'"
proof -
  let ?i = "e_rand e mod g_buckets s"
  from AllocBlockFrom_SomeD [OF run] have k: "g_buckets s \<noteq> 0" and gi: "g_info s"
    by simp_all
  show ?thesis
  proof (cases "idle_list s bt ?i = []")
    case False
    from run have "take_block bt ?i s = Some (p, s')"
      unfolding AllocBlockFrom_idle [OF k gi False] .
    with inv show ?thesis by (rule pool_inv_take_block)
  next
    case True
    from run AllocBlockFrom_abort [OF k gi True]
    obtain s1 where pick1: "PickReadyBlocks bt ?i s = Some s1"
      by (cases "PickReadyBlocks bt ?i s") auto
    note inv1 = pool_inv_PickReadyBlocks [OF inv pick1]
    note fr1 = PickReadyBlocks_frame [OF pick1]
    show ?thesis
    proof (cases "idle_list s1 bt ?i = []")
      case False
      from run have "take_block bt ?i s1 = Some (p, s')"
        unfolding AllocBlockFrom_ready [OF k gi True pick1 False] .
      with inv1 show ?thesis by (rule pool_inv_take_block)
    next
      case e1: True
      let ?sz = "size_t_of_int (FLAGS_rdma_memory_pool_increase_size_mb s1)"
      from run obtain q s2 where
        ext: "ExtendBlockPool e ?sz bt s1 = Some (q, s2)"
        and rest: "if q = 0 then p = 0 \<and> s' = s2
                   else \<exists>s3. PickReadyBlocks bt ?i s2 = Some s3
                          \<and> take_block bt ?i s3 = Some (p, s')"
        unfolding AllocBlockFrom_extend [OF k gi True pick1 e1]
        by (auto split: option.splits if_splits)
      from inv1 have m1: "mode_inv s1" by (simp add: pool_inv_def)
      from init fr1 have init1: "g_block_size s1 \<noteq> [0, 0, 0, 0]" by simp
      from mode_inv_initialised [OF m1] init1
      have bs1: "g_block_size s1 = block_sizes (DEFAULT_BLOCK_SIZE s1)" by blast
      from env fr1 have env1: "memalign_ok e s1" by (simp add: memalign_ok_def)
      note small = extend_bound [OF m1 init1]
      note inv2 = pool_inv_ExtendBlockPool [OF inv1 env1 bs1 bt small ext]
      show ?thesis
      proof (cases "q = 0")
        case True
        with rest inv2 show ?thesis by simp
      next
        case False
        with rest obtain s3 where pick2: "PickReadyBlocks bt ?i s2 = Some s3"
          and tk: "take_block bt ?i s3 = Some (p, s')"
          by auto
        from pool_inv_PickReadyBlocks [OF inv2 pick2] tk show ?thesis
          by (rule pool_inv_take_block)
      qed
    qed
  qed
qed

lemma first_fit_bound:
  "first_fit sz bs i = Some j \<Longrightarrow> i \<le> j \<and> j < i + length bs \<and> sz \<le> bs ! (j - i)
     \<and> (\<forall>l < j - i. bs ! l < sz)"
proof (induction bs arbitrary: i)
  case Nil
  then show ?case by simp
next
  case (Cons b bs)
  show ?case
  proof (cases "sz \<le> b")
    case True
    with Cons.prems show ?thesis by simp
  next
    case False
    with Cons.prems have ff: "first_fit sz bs (Suc i) = Some j" by simp
    from Cons.IH [OF ff] have a: "Suc i \<le> j" "j < Suc i + length bs"
      "sz \<le> bs ! (j - Suc i)" "\<forall>l < j - Suc i. bs ! l < sz"
      by simp_all
    then have e: "j - i = Suc (j - Suc i)" by simp
    have "\<forall>l < j - i. (b # bs) ! l < sz"
    proof (intro allI impI)
      fix l assume "l < j - i"
      then show "(b # bs) ! l < sz" using False a(4) e by (cases l) auto
    qed
    with a e show ?thesis by simp
  qed
qed

lemma pool_inv_AllocBlock:
  assumes inv: "pool_inv s" and env: "memalign_ok e s"
    and run: "AllocBlock e sz s = Some (p, s')"
  shows "pool_inv s'"
proof (cases "sz = 0 \<or> sz > g_block_size s ! (BLOCK_SIZE_COUNT - 1)")
  case True
  with run inv show ?thesis by (auto simp: AllocBlock_def pool_inv_errno)
next
  case False
  then have "g_block_size s ! 3 \<noteq> 0" by (simp add: BLOCK_SIZE_COUNT_def)
  then have init: "g_block_size s \<noteq> [0, 0, 0, 0]" by auto
  show ?thesis
  proof (cases "first_fit sz (take BLOCK_SIZE_COUNT (g_block_size s)) 0")
    case None
    with run False inv show ?thesis by (auto simp: AllocBlock_def)
  next
    case (Some i)
    from first_fit_bound [OF Some] have bt: "i < BLOCK_SIZE_COUNT" by simp
    from run False Some have "AllocBlockFrom e i s = Some (p, s')"
      by (auto simp: AllocBlock_def)
    from pool_inv_AllocBlockFrom [OF inv env init bt this] show ?thesis .
  qed
qed

lemma pool_inv_static:
  assumes "config_ok (static_pool a b c d bsize)"
  shows "pool_inv (static_pool a b c d bsize)"
proof -
  let ?s = "static_pool a b c d bsize"
  have e: "installed ?s = []" by (rule installed_empty) (simp add: static_pool_def)
  have "mode_inv ?s"
    unfolding mode_inv_def using assms
    by (simp add: static_pool_def BLOCK_SIZE_COUNT_def replicate_4)
  moreover have "regions_inv ?s"
    unfolding regions_inv_def e by (simp add: static_pool_def MAX_REGIONS_def)
  moreover have "lists_inv ?s"
    unfolding lists_inv_def by (simp add: static_pool_def)
  ultimately show ?thesis by (simp add: pool_inv_def)
qed

lemma reachable_pool_inv: "reachable s \<Longrightarrow> pool_inv s"
proof (induction rule: reachable.induct)
  case (start a b c d bsize)
  then show ?case by (rule pool_inv_static)
next
  case (init s e cb p s')
  then show ?case by (blast intro: pool_inv_InitBlockPool)
next
  case (alloc s e sz p s')
  then show ?case by (blast intro: pool_inv_AllocBlock)
next
  case (dealloc s e buf rc s')
  then show ?case by (blast intro: pool_inv_DeallocBlock)
next
  case (pick s c b s')
  then show ?case by (blast intro: pool_inv_PickReadyBlocks)
qed

subsection \<open>Two reachable pools\<close>

lemma prepare_test_pool: "prepare (Some dummy_cb) test_pool = prepared_pool"
  by (simp add: prepare_def clamp_flags_def prepared_pool_def test_pool_def static_pool_def
        MAX_REGIONS_def u64_def)

lemma init_test_pool:
  "InitBlockPool (env_at 4096) (Some dummy_cb) test_pool = Some (4096, one_region_pool)"
  unfolding InitBlockPool_eq prepare_test_pool one_region_pool_def
  using prepared_extend
  by (simp add: test_pool_def static_pool_def env_at_def size_t_of_int_def)

lemma one_region_more:
  "g_info one_region_pool" "g_block_size one_region_pool = [8192, 16384, 32768, 65536]"
  "heap one_region_pool = [(4096, 67108864)]"
  by (simp_all add: one_region_pool_def install_region_def prepared_pool_def test_pool_def
        static_pool_def)

lemma one_region_walk:
  "pick_walk one_region_pool 0 (ready_list one_region_pool 0) =
     Found \<lparr> start = 4096, len = 16777216 \<rparr>
       [\<lparr> start = 50335744, len = 16777216 \<rparr>, \<lparr> start = 33558528, len = 16777216 \<rparr>,
        \<lparr> start = 16781312, len = 16777216 \<rparr>]"
  by (simp add: one_region_fields GetRegion_def scan_regions_zero bucket_index_def u64_def)

lemma alloc_one_region:
  "AllocBlock (env_at 2147483648) 8192 one_region_pool = Some (4096, carved_pool)"
proof -
  have pick: "PickReadyBlocks 0 0 one_region_pool =
    Some (one_region_pool\<lparr>
       idle_list := fun_upd (idle_list one_region_pool) 0
          (fun_upd (idle_list one_region_pool 0) 0 [\<lparr> start = 4096, len = 16777216 \<rparr>]),
       ready_list := fun_upd (ready_list one_region_pool) 0
          [\<lparr> start = 50335744, len = 16777216 \<rparr>, \<lparr> start = 33558528, len = 16777216 \<rparr>,
           \<lparr> start = 16781312, len = 16777216 \<rparr>]\<rparr>)"
    by (simp add: PickReadyBlocks_def one_region_walk set_idle_def)
  have ff: "first_fit 8192 (take BLOCK_SIZE_COUNT (g_block_size one_region_pool)) 0 = Some 0"
    by (simp add: one_region_more BLOCK_SIZE_COUNT_def)
  have frm: "AllocBlockFrom (env_at 2147483648) 0 one_region_pool = Some (4096, carved_pool)"
    by (simp add: AllocBlockFrom_def Let_def one_region_fields one_region_more env_at_def
          pick take_block_def set_idle_def carved_pool_def u64_def)
  show ?thesis
    by (simp add: AllocBlock_def ff frm one_region_more BLOCK_SIZE_COUNT_def)
qed

lemma config_ok_test_pool: "config_ok test_pool"
  by (simp add: config_ok_def test_pool_def static_pool_def)

lemma memalign_ok_env_at:
  assumes "base \<noteq> 0" "base + 2 ^ 30 < 2 ^ 64"
    "\<forall>x \<in> set (heap s). fst x + max 1 (snd x) \<le> base"
  shows "memalign_ok (env_at base) s"
proof -
  have "base + max 1 n < 2 ^ 64" if "n \<le> 2 ^ 30" for n :: nat
  proof -
    from that have "max 1 n \<le> 2 ^ 30" by simp
    with assms(2) show ?thesis by linarith
  qed
  with assms(1,3) show ?thesis
    by (auto simp: memalign_ok_def env_at_def separate_def split: if_splits)
qed

lemma reachable_one_region: "reachable one_region_pool"
proof -
  from config_ok_test_pool have "reachable test_pool"
    unfolding test_pool_def by (rule reachable.start)
  moreover have "memalign_ok (env_at 4096) test_pool"
    by (rule memalign_ok_env_at) (simp_all add: test_pool_def static_pool_def)
  ultimately show ?thesis using init_test_pool by (rule reachable.init)
qed

lemma reachable_carved: "reachable carved_pool"
proof -
  have "memalign_ok (env_at 2147483648) one_region_pool"
    by (rule memalign_ok_env_at) (simp_all add: one_region_more)
  with reachable_one_region show ?thesis using alloc_one_region by (rule reachable.alloc)
qed

lemma installed_one_region:
  "installed one_region_pool =
     [\<lparr> r_start = 4096, r_size = 67108864, r_block_type = 0, r_id = 1 \<rparr>]"
  by (simp add: installed_def one_region_fields)

lemma carved_fields:
  "installed carved_pool = installed one_region_pool"
  "g_buckets carved_pool = 4"
  "g_block_size carved_pool = [8192, 16384, 32768, 65536]"
  "idle_list carved_pool 0 0 = [\<lparr> start = 12288, len = 16769024 \<rparr>]"
  "g_region_num carved_pool = 1" "g_max_regions carved_pool = 16"
  by (simp_all add: carved_pool_def installed_def one_region_fields one_region_more)

lemma idle_ok_class:
  assumes inv: "pool_inv s" and n: "n \<in> set (idle_list s c b)"
  obtains r where "r \<in> set (installed s)" "r_block_type r = c" "contains r (start n)"
    "(start n - r_start r) * g_buckets s div r_size r = b"
    "c < BLOCK_SIZE_COUNT" "0 < g_block_size s ! c"
    "g_block_size s ! c dvd len n" "g_block_size s ! c \<le> len n"
proof -
  from inv have m: "mode_inv s" and ri: "regions_inv s" and l: "lists_inv s"
    by (simp_all add: pool_inv_def)
  from l n have "idle_ok s c b n" by (simp add: lists_inv_def)
  then obtain r where r: "r \<in> set (installed s)" "r_block_type r = c" "contains r (start n)"
    "(start n - r_start r) * g_buckets s div r_size r = b"
    and sh: "len n = g_block_size s ! c \<or> g_block_size s ! c dvd len n \<and> g_block_size s ! c < len n"
    unfolding idle_ok_def by blast
  from ri r(1,2) have c: "c < BLOCK_SIZE_COUNT" by (auto simp: regions_inv_def region_ok_def)
  from n have "idle_list s c b \<noteq> []" by auto
  with mode_inv_initialised [OF m, of c b]
  have "g_block_size s = block_sizes (DEFAULT_BLOCK_SIZE s)" "0 < g_block_size s ! 0" by blast+
  then have pos: "0 < g_block_size s ! c"
    using block_sizes_nth [OF c, of "DEFAULT_BLOCK_SIZE s"] by (simp add: block_sizes_def)
  from sh have "g_block_size s ! c dvd len n" "g_block_size s ! c \<le> len n" by auto
  with r c pos that show ?thesis by blast
qed

subsection \<open>Draining the ready list of a reachable pool\<close>


text \<open>
  When no installed region has size 0, every node of a ready list lies in an
  installed region.
\<close>

lemma ready_in_region:
  assumes inv: "pool_inv s" and pos: "\<forall>r \<in> set (installed s). 0 < r_size r"
    and m: "m \<in> set (ready_list s c)"
  shows "region_of s (start m) \<noteq> None"
proof -
  from inv have ri: "regions_inv s" and l: "lists_inv s" by (simp_all add: pool_inv_def)
  from l m have "ready_ok s c m" by (simp add: lists_inv_def)
  then obtain r j where r: "r \<in> set (installed s)" and j: "j < g_buckets s"
    and st: "start m = r_start r + j * (r_size r div g_buckets s)"
    unfolding ready_ok_def by blast
  from ri r have "region_ok s r" by (simp add: regions_inv_def)
  then have "g_block_size s ! r_block_type r * g_buckets s dvd r_size r"
    by (simp add: region_ok_def)
  then have "g_buckets s dvd r_size r" by (rule dvd_mult_right)
  then have sz: "r_size r = g_buckets s * (r_size r div g_buckets s)" by simp
  from pos r have "0 < r_size r" by simp
  with sz have e: "0 < r_size r div g_buckets s" by (metis mult_0_right neq0_conv)
  with j have "j * (r_size r div g_buckets s) < g_buckets s * (r_size r div g_buckets s)"
    by simp
  with sz have "j * (r_size r div g_buckets s) < r_size r" by simp
  with st have "contains r (start m)" by (simp add: contains_def)
  from region_of_SomeI [OF ri r this] show ?thesis by simp
qed




subsection \<open>A region of size 0\<close>








subsection \<open>The bucket-shard invariant\<close>

text \<open>
  Claim C1. In every state reached from the static initial state by calls of
  \<open>InitBlockPool\<close>, \<open>AllocBlock\<close>, \<open>DeallocBlock\<close> and \<open>PickReadyBlocks\<close>, under a
  configuration in which the bucket computation cannot overflow and with a
  \<open>posix_memalign\<close> that answers fresh memory, every node on \<open>idle_list[c][b]\<close> starts
  at an address whose bucket, computed exactly in the installed region containing it,
  is \<open>b\<close>, and its length is a nonzero multiple of the block size of class \<open>c\<close>.
\<close>

theorem idle_nodes_in_bucket:
  assumes "reachable s" and "n \<in> set (idle_list s c b)"
  shows "bucket_of s (start n) = Some b
    \<and> 0 < g_block_size s ! c
    \<and> (\<exists>m > 0. len n = m * g_block_size s ! c)"
proof -
  from assms(1) have inv: "pool_inv s" by (rule reachable_pool_inv)
  then have ri: "regions_inv s" by (simp add: pool_inv_def)
  from inv assms(2) obtain r where r: "r \<in> set (installed s)" "contains r (start n)"
    "(start n - r_start r) * g_buckets s div r_size r = b"
    and pos: "0 < g_block_size s ! c"
    and dv: "g_block_size s ! c dvd len n" "g_block_size s ! c \<le> len n"
    by (rule idle_ok_class)
  from region_of_SomeI [OF ri r(1,2)] r(3) have b: "bucket_of s (start n) = Some b"
    by (simp add: bucket_of_def)
  from dv(1) obtain m where "len n = g_block_size s ! c * m" by (rule dvdE)
  then have m: "len n = m * g_block_size s ! c" by (simp add: mult.commute)
  with pos dv(2) have "0 < m" by (cases m) auto
  with m b pos show ?thesis by blast
qed

theorem idle_nodes_in_bucket_witness:
  "reachable carved_pool
   \<and> \<lparr> start = 12288, len = 16769024 \<rparr> \<in> set (idle_list carved_pool 0 0)
   \<and> bucket_of carved_pool 12288 = Some 0
   \<and> (\<exists>m > 0. (16769024::nat) = m * 8192)"
proof -
  have n: "\<lparr> start = 12288, len = 16769024 \<rparr> \<in> set (idle_list carved_pool 0 0)"
    by (simp add: carved_fields)
  from idle_nodes_in_bucket [OF reachable_carved n] reachable_carved n
  show ?thesis by (simp add: carved_fields)
qed

subsection \<open>The region id of an address\<close>

text \<open>
  Claim C3. In every reachable state, \<open>GetRegionId p\<close> is the lkey of the installed
  region that contains \<open>p\<close>; that lkey is not 0 and no other installed region
  contains \<open>p\<close>. When no installed region contains \<open>p\<close> the result is 0. For the
  null pointer the result is 0 and \<open>errno\<close> is set to \<open>EINVAL\<close>.
\<close>

theorem GetRegionId_lookup:
  assumes "reachable s"
  shows "GetRegionId 0 s = (0, s\<lparr>errno := EINVAL\<rparr>)
    \<and> (\<forall>r \<in> set (installed s). contains r p \<longrightarrow>
          GetRegionId p s = (r_id r, s) \<and> r_id r \<noteq> 0
          \<and> (\<forall>r' \<in> set (installed s). contains r' p \<longrightarrow> r' = r))
    \<and> ((\<forall>r \<in> set (installed s). \<not> contains r p) \<longrightarrow> fst (GetRegionId p s) = 0)"
proof -
  from assms have inv: "pool_inv s" by (rule reachable_pool_inv)
  then have ri: "regions_inv s" by (simp add: pool_inv_def)
  have null: "GetRegionId 0 s = (0, s\<lparr>errno := EINVAL\<rparr>)"
    by (simp add: GetRegionId_def GetRegion_def)
  have hit: "GetRegionId p s = (r_id r, s) \<and> r_id r \<noteq> 0
          \<and> (\<forall>r' \<in> set (installed s). contains r' p \<longrightarrow> r' = r)"
    if r: "r \<in> set (installed s)" "contains r p" for r
  proof -
    from ri r(1) have ok: "region_ok s r" by (simp add: regions_inv_def)
    then have "r_start r \<noteq> 0" "r_id r \<noteq> 0" by (simp_all add: region_ok_def)
    with r(2) have p: "p \<noteq> 0" by (auto simp: contains_def)
    from GetRegion_region_of [OF ri, of p] region_of_SomeI [OF ri r]
    have "GetRegion p s = (Some r, s)" using p by (simp add: GetRegion_def)
    then have "GetRegionId p s = (r_id r, s)" by (simp add: GetRegionId_def)
    moreover have "\<forall>r' \<in> set (installed s). contains r' p \<longrightarrow> r' = r"
      using contains_unique [OF ri _ r(1) _ r(2)] by blast
    ultimately show ?thesis using \<open>r_id r \<noteq> 0\<close> by simp
  qed
  have miss: "fst (GetRegionId p s) = 0" if "\<forall>r \<in> set (installed s). \<not> contains r p"
  proof -
    from that have "region_of s p = None" by (auto simp: region_of_def find_None_iff)
    with GetRegion_region_of [OF ri, of p] show ?thesis
      by (cases "GetRegion p s") (simp add: GetRegionId_def)
  qed
  from null hit miss show ?thesis by blast
qed

theorem GetRegionId_lookup_witness:
  "reachable one_region_pool
   \<and> GetRegionId 0 one_region_pool = (0, one_region_pool\<lparr>errno := EINVAL\<rparr>)
   \<and> GetRegionId 12288 one_region_pool = (1, one_region_pool)
   \<and> fst (GetRegionId 100 one_region_pool) = 0"
proof -
  let ?r = "\<lparr> r_start = 4096, r_size = 67108864, r_block_type = 0, r_id = 1 \<rparr>"
  have r: "?r \<in> set (installed one_region_pool)" by (simp add: installed_one_region)
  have c: "contains ?r 12288" by (simp add: contains_def)
  have nc: "\<forall>r \<in> set (installed one_region_pool). \<not> contains r 100"
    by (simp add: installed_one_region contains_def)
  from GetRegionId_lookup [OF reachable_one_region, of 12288] r c
  have "GetRegionId 0 one_region_pool = (0, one_region_pool\<lparr>errno := EINVAL\<rparr>)"
    "GetRegionId 12288 one_region_pool = (1, one_region_pool)"
    by auto
  moreover from GetRegionId_lookup [OF reachable_one_region, of 100] nc
  have "fst (GetRegionId 100 one_region_pool) = 0" by blast
  ultimately show ?thesis using reachable_one_region by simp
qed

subsection \<open>A pool that has reached its region limit\<close>

lemma prepare_small_fields:
  "g_region_num (prepare (Some dummy_cb) small_pool) = 0"
  "g_max_regions (prepare (Some dummy_cb) small_pool) = 1"
  "g_buckets (prepare (Some dummy_cb) small_pool) = 4"
  "g_block_size (prepare (Some dummy_cb) small_pool) = [8192, 16384, 32768, 65536]"
  "g_cb (prepare (Some dummy_cb) small_pool) = Some dummy_cb"
  "g_info (prepare (Some dummy_cb) small_pool)"
  "heap (prepare (Some dummy_cb) small_pool) = []"
  "ready_list (prepare (Some dummy_cb) small_pool) c = []"
  "idle_list (prepare (Some dummy_cb) small_pool) c b = []"
  "FLAGS_rdma_memory_pool_increase_size_mb (prepare (Some dummy_cb) small_pool) = 64"
  "errno (prepare (Some dummy_cb) small_pool) = E0"
  by (simp_all add: prepare_def clamp_flags_def small_pool_def static_pool_def MAX_REGIONS_def
        u64_def)

lemma init_small_pool:
  "InitBlockPool (env_at 4096) (Some dummy_cb) small_pool = Some (4096, full_pool)"
proof -
  have reg: "regularize 64 8192 4 = 67108864"
    by (simp add: regularize_def u64_def BYTES_IN_MB_def)
  have "ExtendBlockPool (env_at 4096) 64 0 (prepare (Some dummy_cb) small_pool) =
      Some (4096, full_pool)"
    unfolding ExtendBlockPool_eq prepare_small_fields
    by (simp add: reg env_at_def dummy_cb_def full_pool_def)
  then show ?thesis
    unfolding InitBlockPool_eq
    by (simp add: small_pool_def static_pool_def env_at_def size_t_of_int_def)
qed

lemma full_fields:
  "g_region_num full_pool = 1" "g_max_regions full_pool = 1" "g_buckets full_pool = 4"
  "g_block_size full_pool = [8192, 16384, 32768, 65536]" "g_info full_pool"
  "ready_list full_pool 1 = []" "ready_list full_pool (Suc 0) = []"
  "idle_list full_pool c b = []"
  "FLAGS_rdma_memory_pool_increase_size_mb full_pool = 64"
  "errno full_pool = E0"
  by (simp_all add: full_pool_def install_region_def prepare_small_fields)

lemma reachable_full: "reachable full_pool"
proof -
  have "config_ok small_pool" by (simp add: config_ok_def small_pool_def static_pool_def)
  then have "reachable small_pool" unfolding small_pool_def by (rule reachable.start)
  moreover have "memalign_ok (env_at 4096) small_pool"
    by (rule memalign_ok_env_at) (simp_all add: small_pool_def static_pool_def)
  ultimately show ?thesis using init_small_pool by (rule reachable.init)
qed

subsection \<open>The region limit\<close>

lemma increase_flag_value:
  assumes m: "mode_inv s" and init: "g_block_size s \<noteq> [0, 0, 0, 0]"
  shows "size_t_of_int (FLAGS_rdma_memory_pool_increase_size_mb s) =
           nat (FLAGS_rdma_memory_pool_increase_size_mb s)
         \<and> 64 \<le> FLAGS_rdma_memory_pool_increase_size_mb s"
proof -
  let ?f = "FLAGS_rdma_memory_pool_increase_size_mb s"
  from m init have f: "64 \<le> ?f"
    and kk: "1 \<le> FLAGS_rdma_memory_pool_buckets s \<longrightarrow>
             g_buckets s = nat (FLAGS_rdma_memory_pool_buckets s)"
    by (auto simp: mode_inv_def)
  from m have k: "1 \<le> g_buckets s" by (simp add: mode_inv_def config_ok_def)
  from m kk have b: "g_buckets s * (nat (max 64 ?f) * 2 ^ 20) < 2 ^ 64"
    by (auto simp: mode_inv_def config_ok_def Let_def split: if_splits)
  from f have mx: "max 64 ?f = ?f" by simp
  from size_t_of_flag [OF b k] f show ?thesis unfolding mx by simp
qed

lemma pool_inv_initialised:
  assumes "pool_inv s" "g_region_num s \<noteq> 0"
  shows "g_info s \<and> g_buckets s \<noteq> 0
    \<and> 64 \<le> size_t_of_int (FLAGS_rdma_memory_pool_increase_size_mb s)"
proof -
  from assms have m: "mode_inv s" by (simp add: pool_inv_def)
  from mode_inv_initialised [OF m] assms(2)
  have "g_block_size s = block_sizes (DEFAULT_BLOCK_SIZE s)" "0 < g_block_size s ! 0"
    by blast+
  then have init: "g_block_size s \<noteq> [0, 0, 0, 0]" by auto
  with m have gi: "g_info s" by (auto simp: mode_inv_def)
  from m have k: "1 \<le> g_buckets s" by (simp add: mode_inv_def config_ok_def)
  from increase_flag_value [OF m init]
  have "64 \<le> size_t_of_int (FLAGS_rdma_memory_pool_increase_size_mb s)" by auto
  with gi k show ?thesis by simp
qed

text \<open>
  Claim C6. In every reachable state the region count is at most \<open>g_max_regions\<close>,
  which is at most 16. When the count equals \<open>g_max_regions\<close>, every call of
  \<open>ExtendBlockPool\<close> with a size of at least 64 (in particular the one with the
  increase flag that \<open>AllocBlockFrom\<close> makes) returns \<open>NULL\<close> with \<open>errno = ENOMEM\<close>
  and the same region count, and an \<open>AllocBlock\<close> of a valid size that finds its idle
  list empty and no matching ready node returns \<open>NULL\<close> with \<open>errno = ENOMEM\<close>.
\<close>

theorem region_count_bounded:
  assumes "reachable s"
  shows "GetRegionNum s \<le> g_max_regions s \<and> g_max_regions s \<le> 16
    \<and> (GetRegionNum s = g_max_regions s \<longrightarrow>
         (\<forall>n. 64 \<le> n \<longrightarrow> ExtendBlockPool e n bt s = Some (0, s\<lparr>errno := ENOMEM\<rparr>))
       \<and> ExtendBlockPool e (size_t_of_int (FLAGS_rdma_memory_pool_increase_size_mb s)) bt s =
           Some (0, s\<lparr>errno := ENOMEM\<rparr>)
       \<and> GetRegionNum (s\<lparr>errno := ENOMEM\<rparr>) = GetRegionNum s
       \<and> (\<forall>c s1. sz \<noteq> 0 \<and> sz \<le> g_block_size s ! (BLOCK_SIZE_COUNT - 1)
            \<and> first_fit sz (take BLOCK_SIZE_COUNT (g_block_size s)) 0 = Some c
            \<and> idle_list s c (e_rand e mod g_buckets s) = []
            \<and> PickReadyBlocks c (e_rand e mod g_buckets s) s = Some s1
            \<and> idle_list s1 c (e_rand e mod g_buckets s) = []
            \<longrightarrow> s1 = s \<and> AllocBlock e sz s = Some (0, s\<lparr>errno := ENOMEM\<rparr>)))"
proof -
  from assms have inv: "pool_inv s" by (rule reachable_pool_inv)
  then have ri: "regions_inv s" by (simp add: pool_inv_def)
  then have bound: "g_region_num s \<le> g_max_regions s" "g_max_regions s \<le> 16"
    "1 \<le> g_max_regions s"
    by (simp_all add: regions_inv_def MAX_REGIONS_def)
  have full: "(\<forall>n. 64 \<le> n \<longrightarrow> ExtendBlockPool e n bt s = Some (0, s\<lparr>errno := ENOMEM\<rparr>))
       \<and> ExtendBlockPool e (size_t_of_int (FLAGS_rdma_memory_pool_increase_size_mb s)) bt s =
           Some (0, s\<lparr>errno := ENOMEM\<rparr>)
       \<and> (\<forall>c s1. sz \<noteq> 0 \<and> sz \<le> g_block_size s ! (BLOCK_SIZE_COUNT - 1)
            \<and> first_fit sz (take BLOCK_SIZE_COUNT (g_block_size s)) 0 = Some c
            \<and> idle_list s c (e_rand e mod g_buckets s) = []
            \<and> PickReadyBlocks c (e_rand e mod g_buckets s) s = Some s1
            \<and> idle_list s1 c (e_rand e mod g_buckets s) = []
            \<longrightarrow> s1 = s \<and> AllocBlock e sz s = Some (0, s\<lparr>errno := ENOMEM\<rparr>))"
    if eq: "g_region_num s = g_max_regions s"
  proof -
    from eq bound(3) have nz: "g_region_num s \<noteq> 0" by simp
    from pool_inv_initialised [OF inv nz] have gi: "g_info s" and k: "g_buckets s \<noteq> 0"
      and f: "64 \<le> size_t_of_int (FLAGS_rdma_memory_pool_increase_size_mb s)"
      by simp_all
    have ext: "ExtendBlockPool e n c s = Some (0, s\<lparr>errno := ENOMEM\<rparr>)" if "64 \<le> n" for n c
      using that eq by (simp add: ExtendBlockPool_eq)
    have alloc: "s1 = s \<and> AllocBlock e sz s = Some (0, s\<lparr>errno := ENOMEM\<rparr>)"
      if a: "sz \<noteq> 0" "sz \<le> g_block_size s ! (BLOCK_SIZE_COUNT - 1)"
        "first_fit sz (take BLOCK_SIZE_COUNT (g_block_size s)) 0 = Some c"
        "idle_list s c (e_rand e mod g_buckets s) = []"
        "PickReadyBlocks c (e_rand e mod g_buckets s) s = Some s1"
        "idle_list s1 c (e_rand e mod g_buckets s) = []" for c s1
    proof -
      let ?i = "e_rand e mod g_buckets s"
      have same: "s1 = s"
      proof (cases "pick_walk s ?i (ready_list s c)")
        case (Found n rest)
        with a(5) have "idle_list s1 c ?i = [n]"
          by (auto simp: PickReadyBlocks_def set_idle_def)
        with a(6) show ?thesis by simp
      qed (use a(5) in \<open>simp_all add: PickReadyBlocks_def\<close>)
      from a(5,6) have p: "PickReadyBlocks c ?i s = Some s" "idle_list s c ?i = []"
        unfolding same by simp_all
      have "AllocBlockFrom e c s = Some (0, s\<lparr>errno := ENOMEM\<rparr>)"
        unfolding AllocBlockFrom_extend [OF k gi a(4) p] using ext [OF f] by simp
      with a(1-3) same show ?thesis by (simp add: AllocBlock_def)
    qed
    from ext f alloc show ?thesis by blast
  qed
  have keep: "g_region_num (s\<lparr>errno := ENOMEM\<rparr>) = g_region_num s" by simp
  show ?thesis
    unfolding GetRegionNum_def keep using bound(1,2) full by blast
qed


theorem region_count_bounded_witness:
  "reachable full_pool \<and> GetRegionNum full_pool = 1 \<and> g_max_regions full_pool = 1
   \<and> ExtendBlockPool (env_at 2147483648) 64 1 full_pool = Some (0, full_pool\<lparr>errno := ENOMEM\<rparr>)
   \<and> AllocBlock (env_at 2147483648) 8193 full_pool = Some (0, full_pool\<lparr>errno := ENOMEM\<rparr>)"
proof -
  have full: "GetRegionNum full_pool = g_max_regions full_pool"
    by (simp add: GetRegionNum_def full_fields)
  have ff: "first_fit 8193 (take BLOCK_SIZE_COUNT (g_block_size full_pool)) 0 = Some 1"
    by (simp add: full_fields BLOCK_SIZE_COUNT_def)
  have sz: "(8193::nat) \<noteq> 0 \<and> 8193 \<le> g_block_size full_pool ! (BLOCK_SIZE_COUNT - 1)"
    by (simp add: full_fields BLOCK_SIZE_COUNT_def)
  have idx: "e_rand (env_at 2147483648) mod g_buckets full_pool = 0"
    by (simp add: env_at_def)
  have idle: "idle_list full_pool 1 0 = []" by (simp add: full_fields)
  have pick: "PickReadyBlocks 1 0 full_pool = Some full_pool"
    by (simp add: PickReadyBlocks_def full_fields)
  from region_count_bounded [OF reachable_full, of "env_at 2147483648" 1 8193]
    full ff sz idle pick reachable_full
  show ?thesis unfolding idx by (simp add: full_fields)
qed

subsection \<open>Deallocation\<close>

lemma bucket_of_one_region: "bucket_of one_region_pool 12288 = Some 0"
  by (simp add: bucket_of_def region_of_def installed_one_region contains_def one_region_fields)

text \<open>
  Claim C8. In every reachable state, when the object pool can supply a node,
  \<open>DeallocBlock buf\<close> returns -1 with \<open>errno = EINVAL\<close> for the null pointer, returns -1
  with \<open>errno = ERANGE\<close> for a pointer that no installed region contains, and in
  every other case, whatever the alignment of \<open>buf\<close> and whether or not it was
  deallocated before, returns 0 after pushing the node
  \<open>(buf, class_size (r_block_type r))\<close> onto the idle list of the region's block type
  and of the bucket \<open>bucket_of buf\<close>. So it returns -1 exactly in the first two cases.
\<close>

theorem DeallocBlock_result:
  assumes "reachable s" and "0 < e_objs e"
  shows "(buf = 0 \<longrightarrow> DeallocBlock e buf s = Some (- 1, s\<lparr>errno := EINVAL\<rparr>))
    \<and> (buf \<noteq> 0 \<and> (\<forall>r \<in> set (installed s). \<not> contains r buf) \<longrightarrow>
          DeallocBlock e buf s = Some (- 1, s\<lparr>errno := ERANGE\<rparr>))
    \<and> (\<forall>r \<in> set (installed s). contains r buf \<longrightarrow>
          (\<exists>b < g_buckets s. bucket_of s buf = Some b
             \<and> DeallocBlock e buf s =
                 Some (0, s\<lparr>objects := objects s + 1,
                   idle_list := fun_upd (idle_list s) (r_block_type r)
                     (fun_upd (idle_list s (r_block_type r)) b
                        (\<lparr> start = buf, len = g_block_size s ! r_block_type r \<rparr>
                           # idle_list s (r_block_type r) b))\<rparr>)))
    \<and> ((\<exists>s'. DeallocBlock e buf s = Some (- 1, s')) \<longleftrightarrow>
          buf = 0 \<or> (\<forall>r \<in> set (installed s). \<not> contains r buf))"
proof -
  from assms(1) have inv: "pool_inv s" by (rule reachable_pool_inv)
  then have ri: "regions_inv s" and m: "mode_inv s" by (simp_all add: pool_inv_def)
  from m have k: "0 < g_buckets s" by (simp add: mode_inv_def config_ok_def)
  note eq = DeallocBlock_eq [OF inv, of e buf]
  have null: "DeallocBlock e buf s = Some (- 1, s\<lparr>errno := EINVAL\<rparr>)" if "buf = 0"
    unfolding eq using that by simp
  have miss: "DeallocBlock e buf s = Some (- 1, s\<lparr>errno := ERANGE\<rparr>)"
    if "buf \<noteq> 0" "\<forall>r \<in> set (installed s). \<not> contains r buf"
  proof -
    from that(2) have "region_of s buf = None" by (auto simp: region_of_def find_None_iff)
    with that(1) show ?thesis unfolding eq by simp
  qed
  have hit: "\<exists>b < g_buckets s. bucket_of s buf = Some b
             \<and> DeallocBlock e buf s =
                 Some (0, s\<lparr>objects := objects s + 1,
                   idle_list := fun_upd (idle_list s) (r_block_type r)
                     (fun_upd (idle_list s (r_block_type r)) b
                        (\<lparr> start = buf, len = g_block_size s ! r_block_type r \<rparr>
                           # idle_list s (r_block_type r) b))\<rparr>)"
    if r: "r \<in> set (installed s)" "contains r buf" for r
  proof -
    from region_of_SomeI [OF ri r] have ro: "region_of s buf = Some r" .
    from ri r(1) have "r_start r \<noteq> 0" by (auto dest: installed_nowrap)
    with r(2) have nz: "buf \<noteq> 0" by (auto simp: contains_def)
    let ?b = "(buf - r_start r) * g_buckets s div r_size r"
    from bucket_lt [OF r(2) k] have "?b < g_buckets s" .
    moreover have "bucket_of s buf = Some ?b" by (simp add: bucket_of_def ro)
    moreover have "DeallocBlock e buf s =
                 Some (0, s\<lparr>objects := objects s + 1,
                   idle_list := fun_upd (idle_list s) (r_block_type r)
                     (fun_upd (idle_list s (r_block_type r)) ?b
                        (\<lparr> start = buf, len = g_block_size s ! r_block_type r \<rparr>
                           # idle_list s (r_block_type r) ?b))\<rparr>)"
      unfolding eq using nz ro assms(2) by simp
    ultimately show ?thesis by blast
  qed
  have iff: "(\<exists>s'. DeallocBlock e buf s = Some (- 1, s')) \<longleftrightarrow>
          buf = 0 \<or> (\<forall>r \<in> set (installed s). \<not> contains r buf)"
  proof (cases "buf = 0 \<or> (\<forall>r \<in> set (installed s). \<not> contains r buf)")
    case True
    with null miss show ?thesis by (cases "buf = 0") auto
  next
    case False
    then obtain r where "r \<in> set (installed s)" "contains r buf" by blast
    from hit [OF this] False show ?thesis by auto
  qed
  from null miss hit iff show ?thesis by blast
qed

theorem DeallocBlock_result_witness:
  "DeallocBlock (env_at 4096) 0 one_region_pool = Some (- 1, one_region_pool\<lparr>errno := EINVAL\<rparr>)
   \<and> DeallocBlock (env_at 4096) 100 one_region_pool =
       Some (- 1, one_region_pool\<lparr>errno := ERANGE\<rparr>)
   \<and> DeallocBlock (env_at 4096) 12288 one_region_pool =
       Some (0, one_region_pool\<lparr>objects := objects one_region_pool + 1,
          idle_list := fun_upd (idle_list one_region_pool) 0
            (fun_upd (idle_list one_region_pool 0) 0 [\<lparr> start = 12288, len = 8192 \<rparr>])\<rparr>)"
proof -
  let ?r = "\<lparr> r_start = 4096, r_size = 67108864, r_block_type = 0, r_id = 1 \<rparr>"
  have objs: "0 < e_objs (env_at 4096)" by (simp add: env_at_def)
  note res = DeallocBlock_result [OF reachable_one_region objs]
  have r: "?r \<in> set (installed one_region_pool)" by (simp add: installed_one_region)
  have c: "contains ?r 12288" by (simp add: contains_def)
  have nc: "(100::nat) \<noteq> 0 \<and> (\<forall>r \<in> set (installed one_region_pool). \<not> contains r 100)"
    by (simp add: installed_one_region contains_def)
  from res [of 0] have a: "DeallocBlock (env_at 4096) 0 one_region_pool =
      Some (- 1, one_region_pool\<lparr>errno := EINVAL\<rparr>)"
    by blast
  from res [of 100] nc have b: "DeallocBlock (env_at 4096) 100 one_region_pool =
      Some (- 1, one_region_pool\<lparr>errno := ERANGE\<rparr>)"
    by blast
  from res [of 12288] r c obtain b where
    "bucket_of one_region_pool 12288 = Some b"
    "DeallocBlock (env_at 4096) 12288 one_region_pool =
       Some (0, one_region_pool\<lparr>objects := objects one_region_pool + 1,
          idle_list := fun_upd (idle_list one_region_pool) (r_block_type ?r)
            (fun_upd (idle_list one_region_pool (r_block_type ?r)) b
               (\<lparr> start = 12288, len = g_block_size one_region_pool ! r_block_type ?r \<rparr>
                  # idle_list one_region_pool (r_block_type ?r) b))\<rparr>)"
    by blast
  then have d: "DeallocBlock (env_at 4096) 12288 one_region_pool =
       Some (0, one_region_pool\<lparr>objects := objects one_region_pool + 1,
          idle_list := fun_upd (idle_list one_region_pool) 0
            (fun_upd (idle_list one_region_pool 0) 0 [\<lparr> start = 12288, len = 8192 \<rparr>])\<rparr>)"
    by (simp add: bucket_of_one_region one_region_fields one_region_more)
  from a b d show ?thesis by simp
qed

text \<open>
  Claim C9. In every reachable state, for a pointer inside an installed region,
  \<open>DeallocBlock\<close> returns 0 and leaves the whole state unchanged when the object pool
  cannot supply a node.
\<close>

theorem DeallocBlock_exhausted:
  assumes "reachable s" and "r \<in> set (installed s)" and "contains r buf"
    and "e_objs e = 0"
  shows "DeallocBlock e buf s = Some (0, s)"
proof -
  from assms(1) have inv: "pool_inv s" by (rule reachable_pool_inv)
  then have ri: "regions_inv s" by (simp add: pool_inv_def)
  from region_of_SomeI [OF ri assms(2,3)] have ro: "region_of s buf = Some r" .
  from ri assms(2) have "r_start r \<noteq> 0" by (auto dest: installed_nowrap)
  with assms(3) have "buf \<noteq> 0" by (auto simp: contains_def)
  with ro assms(4) show ?thesis unfolding DeallocBlock_eq [OF inv] by simp
qed


theorem DeallocBlock_exhausted_witness:
  "DeallocBlock ((env_at 4096)\<lparr>e_objs := 0\<rparr>) 12288 one_region_pool = Some (0, one_region_pool)"
proof -
  let ?r = "\<lparr> r_start = 4096, r_size = 67108864, r_block_type = 0, r_id = 1 \<rparr>"
  have r: "?r \<in> set (installed one_region_pool)" by (simp add: installed_one_region)
  have c: "contains ?r 12288" by (simp add: contains_def)
  have e: "e_objs ((env_at 4096)\<lparr>e_objs := 0\<rparr>) = 0" by simp
  from DeallocBlock_exhausted [OF reachable_one_region r c e] show ?thesis .
qed

subsection \<open>Size classes of \<open>AllocBlock\<close>\<close>

lemma first_fit_None: "first_fit sz bs i = None \<Longrightarrow> \<forall>b \<in> set bs. b < sz"
  by (induction bs arbitrary: i) (auto split: if_splits)

lemma take_block_post:
  assumes inv: "pool_inv s" and run: "take_block bt idx s = Some (p, s')"
  shows "errno s' = errno s \<and> installed s' = installed s
    \<and> (p \<noteq> 0 \<longrightarrow> (\<exists>r \<in> set (installed s'). contains r p \<and> r_block_type r = bt))"
proof (cases "idle_list s bt idx")
  case Nil
  with run show ?thesis by (simp add: take_block_def)
next
  case (Cons n rest)
  then have "n \<in> set (idle_list s bt idx)" by simp
  with inv obtain r where r: "r \<in> set (installed s)" "r_block_type r = bt" "contains r (start n)"
    by (rule idle_ok_class)
  from run Cons have p: "p = start n"
    by (auto simp: take_block_def Let_def split: if_splits)
  from run Cons have f: "errno s' = errno s" "installed s' = installed s"
    by (auto simp: take_block_def Let_def set_idle_def installed_def split: if_splits)
  with r p show ?thesis by auto
qed

lemma ExtendBlockPool_null:
  assumes env: "memalign_ok e s" and sz: "64 \<le> n"
    and run: "ExtendBlockPool e n bt s = Some (0, s')"
  shows "s' = s \<or> s' = s\<lparr>errno := ENOMEM\<rparr>"
proof -
  have "b \<noteq> 0" if "e_memalign e m = Some b" for m b
    using env that by (auto simp: memalign_ok_def)
  with run sz show ?thesis
    unfolding ExtendBlockPool_eq by (auto split: if_splits option.splits)
qed

lemma AllocBlockFrom_post:
  assumes inv: "pool_inv s" and env: "memalign_ok e s"
    and init: "g_block_size s \<noteq> [0, 0, 0, 0]" and bt: "bt < BLOCK_SIZE_COUNT"
    and run: "AllocBlockFrom e bt s = Some (p, s')"
  shows "(errno s' = errno s \<or> errno s' = ENOMEM)
    \<and> (p \<noteq> 0 \<longrightarrow> (\<exists>r \<in> set (installed s'). contains r p \<and> r_block_type r = bt))"
proof -
  let ?i = "e_rand e mod g_buckets s"
  from AllocBlockFrom_SomeD [OF run] have k: "g_buckets s \<noteq> 0" and gi: "g_info s"
    by simp_all
  show ?thesis
  proof (cases "idle_list s bt ?i = []")
    case False
    from run have "take_block bt ?i s = Some (p, s')"
      unfolding AllocBlockFrom_idle [OF k gi False] .
    from take_block_post [OF inv this] show ?thesis by auto
  next
    case True
    from run AllocBlockFrom_abort [OF k gi True]
    obtain s1 where pick1: "PickReadyBlocks bt ?i s = Some s1"
      by (cases "PickReadyBlocks bt ?i s") auto
    note inv1 = pool_inv_PickReadyBlocks [OF inv pick1]
    note fr1 = PickReadyBlocks_frame [OF pick1]
    show ?thesis
    proof (cases "idle_list s1 bt ?i = []")
      case False
      from run have "take_block bt ?i s1 = Some (p, s')"
        unfolding AllocBlockFrom_ready [OF k gi True pick1 False] .
      from take_block_post [OF inv1 this] fr1 show ?thesis by auto
    next
      case e1: True
      let ?sz = "size_t_of_int (FLAGS_rdma_memory_pool_increase_size_mb s1)"
      from run obtain q s2 where
        ext: "ExtendBlockPool e ?sz bt s1 = Some (q, s2)"
        and rest: "if q = 0 then p = 0 \<and> s' = s2
                   else \<exists>s3. PickReadyBlocks bt ?i s2 = Some s3
                          \<and> take_block bt ?i s3 = Some (p, s')"
        unfolding AllocBlockFrom_extend [OF k gi True pick1 e1]
        by (auto split: option.splits if_splits)
      from inv1 have m1: "mode_inv s1" by (simp add: pool_inv_def)
      from init fr1 have init1: "g_block_size s1 \<noteq> [0, 0, 0, 0]" by simp
      from mode_inv_initialised [OF m1] init1
      have bs1: "g_block_size s1 = block_sizes (DEFAULT_BLOCK_SIZE s1)" by blast
      from env fr1 have env1: "memalign_ok e s1" by (simp add: memalign_ok_def)
      note small = extend_bound [OF m1 init1]
      note inv2 = pool_inv_ExtendBlockPool [OF inv1 env1 bs1 bt small ext]
      from increase_flag_value [OF m1 init1] have big: "64 \<le> ?sz" by auto
      show ?thesis
      proof (cases "q = 0")
        case True
        with ext have "s2 = s1 \<or> s2 = s1\<lparr>errno := ENOMEM\<rparr>"
          using ExtendBlockPool_null [OF env1 big] by simp
        with rest True fr1 show ?thesis by auto
      next
        case False
        with rest obtain s3 where pick2: "PickReadyBlocks bt ?i s2 = Some s3"
          and tk: "take_block bt ?i s3 = Some (p, s')"
          by auto
        from ext False obtain cb rs where "s2 = install_region q rs bt cb s1"
          by (rule ExtendBlockPool_success)
        then have e2: "errno s2 = errno s1" by (simp add: install_region_def)
        from take_block_post [OF pool_inv_PickReadyBlocks [OF inv2 pick2] tk]
          PickReadyBlocks_frame [OF pick2] e2 fr1
        show ?thesis by auto
      qed
    qed
  qed
qed

lemma GetBlockType_region:
  assumes inv: "pool_inv s" and r: "r \<in> set (installed s)" "contains r p"
  shows "GetBlockType p s = (int (r_block_type r), s)"
proof -
  from inv have ri: "regions_inv s" by (simp add: pool_inv_def)
  from ri r(1) have "r_start r \<noteq> 0" by (auto dest: installed_nowrap)
  with r(2) have "p \<noteq> 0" by (auto simp: contains_def)
  with GetRegion_region_of [OF ri, of p] region_of_SomeI [OF ri r]
  have "GetRegion p s = (Some r, s)" by (simp add: GetRegion_def)
  then show ?thesis by (simp add: GetBlockType_def)
qed

lemma block_size_length:
  assumes "mode_inv s" shows "length (g_block_size s) = BLOCK_SIZE_COUNT"
  using assms by (auto simp: mode_inv_def block_sizes_def BLOCK_SIZE_COUNT_def)

text \<open>
  Claim C2. In every reachable state, with a \<open>posix_memalign\<close> that answers fresh
  memory: for \<open>sz = 0\<close> or \<open>sz\<close> above the largest block size, \<open>AllocBlock sz\<close> returns
  \<open>NULL\<close> and sets \<open>errno\<close> to \<open>EINVAL\<close>. For every other size it is
  \<open>AllocBlockFrom c\<close> for the smallest class \<open>c\<close> whose block size is at least \<open>sz\<close>;
  a non-null pointer it returns has \<open>GetBlockType = c\<close>, and \<open>errno\<close> is then either
  left as it was or set to \<open>ENOMEM\<close>. Hence, when \<open>errno\<close> was not already \<open>EINVAL\<close> at
  the call, the call ends with \<open>NULL\<close> and \<open>errno = EINVAL\<close> exactly for the invalid
  sizes.
\<close>

theorem AllocBlock_class:
  assumes "reachable s" and "memalign_ok e s"
  shows "(sz = 0 \<or> sz > g_block_size s ! (BLOCK_SIZE_COUNT - 1) \<longrightarrow>
            AllocBlock e sz s = Some (0, s\<lparr>errno := EINVAL\<rparr>))
    \<and> (\<not> (sz = 0 \<or> sz > g_block_size s ! (BLOCK_SIZE_COUNT - 1)) \<longrightarrow>
         (\<exists>c < BLOCK_SIZE_COUNT. sz \<le> g_block_size s ! c
            \<and> (\<forall>c' < c. g_block_size s ! c' < sz)
            \<and> AllocBlock e sz s = AllocBlockFrom e c s
            \<and> (\<forall>p s'. AllocBlock e sz s = Some (p, s') \<longrightarrow>
                  (p \<noteq> 0 \<longrightarrow> GetBlockType p s' = (int c, s'))
                  \<and> (errno s' = errno s \<or> errno s' = ENOMEM))))
    \<and> (errno s \<noteq> EINVAL \<longrightarrow>
         ((\<exists>s'. AllocBlock e sz s = Some (0, s') \<and> errno s' = EINVAL) \<longleftrightarrow>
            sz = 0 \<or> sz > g_block_size s ! (BLOCK_SIZE_COUNT - 1)))"
proof -
  from assms(1) have inv: "pool_inv s" by (rule reachable_pool_inv)
  then have m: "mode_inv s" by (simp add: pool_inv_def)
  let ?bad = "sz = 0 \<or> sz > g_block_size s ! (BLOCK_SIZE_COUNT - 1)"
  have bad: "AllocBlock e sz s = Some (0, s\<lparr>errno := EINVAL\<rparr>)" if ?bad
    using that by (auto simp: AllocBlock_def)
  have good: "\<exists>c < BLOCK_SIZE_COUNT. sz \<le> g_block_size s ! c
            \<and> (\<forall>c' < c. g_block_size s ! c' < sz)
            \<and> AllocBlock e sz s = AllocBlockFrom e c s
            \<and> (\<forall>p s'. AllocBlock e sz s = Some (p, s') \<longrightarrow>
                  (p \<noteq> 0 \<longrightarrow> GetBlockType p s' = (int c, s'))
                  \<and> (errno s' = errno s \<or> errno s' = ENOMEM))"
    if ok: "\<not> ?bad"
  proof -
    note len = block_size_length [OF m]
    from ok have "g_block_size s ! 3 \<noteq> 0" by (simp add: BLOCK_SIZE_COUNT_def)
    then have init: "g_block_size s \<noteq> [0, 0, 0, 0]" by auto
    have tk: "take BLOCK_SIZE_COUNT (g_block_size s) = g_block_size s" using len by simp
    obtain c where ff: "first_fit sz (g_block_size s) 0 = Some c"
    proof (cases "first_fit sz (g_block_size s) 0")
      case None
      from first_fit_None [OF None] len have "g_block_size s ! (BLOCK_SIZE_COUNT - 1) < sz"
        by (simp add: BLOCK_SIZE_COUNT_def)
      with ok show ?thesis by simp
    qed (rule that)
    from first_fit_bound [OF ff] len have c: "c < BLOCK_SIZE_COUNT" "sz \<le> g_block_size s ! c"
      "\<forall>c' < c. g_block_size s ! c' < sz"
      by simp_all
    from ok ff have eq: "AllocBlock e sz s = AllocBlockFrom e c s"
      by (simp add: AllocBlock_def tk)
    have post: "(p \<noteq> 0 \<longrightarrow> GetBlockType p s' = (int c, s'))
        \<and> (errno s' = errno s \<or> errno s' = ENOMEM)"
      if run: "AllocBlock e sz s = Some (p, s')" for p s'
    proof -
      from run have frm: "AllocBlockFrom e c s = Some (p, s')" unfolding eq .
      note inv' = pool_inv_AllocBlockFrom [OF inv assms(2) init c(1) frm]
      from AllocBlockFrom_post [OF inv assms(2) init c(1) frm] GetBlockType_region [OF inv']
      show ?thesis by blast
    qed
    from c eq post show ?thesis by blast
  qed
  have iff: "(\<exists>s'. AllocBlock e sz s = Some (0, s') \<and> errno s' = EINVAL) \<longleftrightarrow> ?bad"
    if e: "errno s \<noteq> EINVAL"
  proof (cases ?bad)
    case True
    with bad show ?thesis by auto
  next
    case False
    from good [OF False] e have "\<not> (\<exists>s'. AllocBlock e sz s = Some (0, s') \<and> errno s' = EINVAL)"
      by fastforce
    with False show ?thesis by simp
  qed
  from bad good iff show ?thesis by blast
qed


theorem AllocBlock_class_witness:
  "AllocBlock (env_at 2147483648) 0 one_region_pool = Some (0, one_region_pool\<lparr>errno := EINVAL\<rparr>)
   \<and> AllocBlock (env_at 2147483648) 8192 one_region_pool = Some (4096, carved_pool)
   \<and> GetBlockType 4096 carved_pool = (0, carved_pool)"
proof -
  have env: "memalign_ok (env_at 2147483648) one_region_pool"
    by (rule memalign_ok_env_at) (simp_all add: one_region_more)
  note cls = AllocBlock_class [OF reachable_one_region env]
  have bs: "g_block_size one_region_pool ! (BLOCK_SIZE_COUNT - 1) = 65536"
    "g_block_size one_region_pool ! 0 = 8192"
    by (simp_all add: one_region_more BLOCK_SIZE_COUNT_def)
  from cls [of 0] have a: "AllocBlock (env_at 2147483648) 0 one_region_pool =
      Some (0, one_region_pool\<lparr>errno := EINVAL\<rparr>)"
    by simp
  have ok: "\<not> ((8192::nat) = 0 \<or> 8192 > g_block_size one_region_pool ! (BLOCK_SIZE_COUNT - 1))"
    unfolding bs by simp
  with cls [of 8192] obtain c where c: "\<forall>c' < c. g_block_size one_region_pool ! c' < 8192"
    and post: "\<forall>p s'. AllocBlock (env_at 2147483648) 8192 one_region_pool = Some (p, s') \<longrightarrow>
                  (p \<noteq> 0 \<longrightarrow> GetBlockType p s' = (int c, s'))"
    by blast
  have "c = 0"
  proof (rule ccontr)
    assume "c \<noteq> 0"
    with c have "g_block_size one_region_pool ! 0 < 8192" by simp
    then show False by (simp add: bs)
  qed
  with post alloc_one_region have "GetBlockType 4096 carved_pool = (0, carved_pool)"
    by simp
  with a alloc_one_region show ?thesis by simp
qed

subsection \<open>The extension scenario\<close>

lemma scen_AllocBlock:
  assumes "scen s" "sz \<noteq> 0" "sz \<le> 65536"
    "first_fit sz [8192, 16384, 32768, 65536] 0 = Some c"
  shows "AllocBlock e sz s = AllocBlockFrom e c s"
  using assms by (simp add: scen_def AllocBlock_def BLOCK_SIZE_COUNT_def)

lemma scen_set_idle:
  assumes "scen s" "pool_inv (set_idle c b l s)"
  shows "scen (set_idle c b l s)"
  using assms by (simp add: scen_def set_idle_def)

lemma take_block_long:
  assumes "idle_list s bt idx = n # rest" "g_block_size s ! bt < len n"
  shows "take_block bt idx s =
     Some (start n, set_idle bt idx
        (\<lparr> start = u64 (start n + g_block_size s ! bt), len = len n - g_block_size s ! bt \<rparr>
           # rest) s)"
  using assms by (simp add: take_block_def Let_def)

lemma take_block_last:
  assumes "idle_list s bt idx = n # rest" "len n = g_block_size s ! bt"
  shows "take_block bt idx s =
     Some (start n, (set_idle bt idx rest s)\<lparr>objects := objects s - 1\<rparr>)"
  using assms by (simp add: take_block_def Let_def)

lemma carve:
  assumes st: "stock c q k s" and k: "0 < k" and c: "c < 4"
    and cls: "sz \<noteq> 0" "sz \<le> 65536" "first_fit sz [8192, 16384, 32768, 65536] 0 = Some c"
  shows "\<exists>p s'. AllocBlock e sz s = Some (p, s') \<and> p \<noteq> 0 \<and> stock c q (k - 1) s'
           \<and> heap s' = heap s \<and> g_cb s' = g_cb s"
proof -
  from st have sc: "scen s" and num: "g_region_num s = 1 + q" and rdy: "ready_list s c = []"
    by (simp_all add: stock_def)
  from st k obtain n where idle: "idle_list s c 0 = [n]" and ln: "len n = k * g_block_size s ! c"
    by (auto simp: stock_def)
  from sc have inv: "pool_inv s" and k1: "g_buckets s = 1" and gi: "g_info s"
    and bs: "g_block_size s = [8192, 16384, 32768, 65536]"
    by (simp_all add: scen_def)
  let ?bs = "g_block_size s ! c"
  from idle have mem: "n \<in> set (idle_list s c 0)" by simp
  from inv mem obtain r where r: "r \<in> set (installed s)" "contains r (start n)"
    and pos: "0 < ?bs"
    by (rule idle_ok_class)
  from inv r(1) have "r_start r \<noteq> 0" by (auto simp: pool_inv_def dest: installed_nowrap)
  with r(2) have nz: "start n \<noteq> 0" by (auto simp: contains_def)
  have i0: "e_rand e mod g_buckets s = 0" by (simp add: k1)
  have frm: "AllocBlockFrom e c s = take_block c 0 s"
    using AllocBlockFrom_idle [of s c e] idle gi by (simp add: k1)
  note eq = scen_AllocBlock [OF sc cls, of e]
  show ?thesis
  proof (cases "k = 1")
    case True
    let ?s' = "(set_idle c 0 [] s)\<lparr>objects := objects s - 1\<rparr>"
    from True ln have run: "take_block c 0 s = Some (start n, ?s')"
      by (intro take_block_last [OF idle]) simp
    from pool_inv_take_block [OF inv run] have inv': "pool_inv ?s'" .
    with sc have sc': "scen ?s'" by (simp add: scen_def set_idle_def)
    have "stock c q (k - 1) ?s'"
      using True sc' num rdy by (simp add: stock_def set_idle_def)
    moreover have "heap ?s' = heap s" "g_cb ?s' = g_cb s" by (simp_all add: set_idle_def)
    ultimately show ?thesis using run nz unfolding eq frm by blast
  next
    case False
    with k have k2: "2 \<le> k" by simp
    let ?n' = "\<lparr> start = u64 (start n + ?bs), len = len n - ?bs \<rparr>"
    let ?s' = "set_idle c 0 [?n'] s"
    have "?bs * 2 \<le> k * ?bs" using k2 by simp
    with pos ln have long: "?bs < len n" by linarith
    then have run: "take_block c 0 s = Some (start n, ?s')"
      by (rule take_block_long [OF idle])
    from pool_inv_take_block [OF inv run] have inv': "pool_inv ?s'" .
    from scen_set_idle [OF sc inv'] have sc': "scen ?s'" .
    have "len ?n' = (k - 1) * ?bs" using ln by (simp add: diff_mult_distrib)
    then have "stock c q (k - 1) ?s'"
      using False k sc' num rdy by (simp add: stock_def set_idle_def)
    moreover have "heap ?s' = heap s" "g_cb ?s' = g_cb s" by (simp_all add: set_idle_def)
    ultimately show ?thesis using run nz unfolding eq frm by blast
  qed
qed

lemma pick_fresh:
  assumes inv: "pool_inv s" and k1: "g_buckets s = 1"
    and rdy: "ready_list s c = [\<lparr> start = b, len = l \<rparr>]"
    and r: "r \<in> set (installed s)" "r_start r = b" "0 < r_size r"
  shows "PickReadyBlocks c 0 s =
     Some ((set_idle c 0 [\<lparr> start = b, len = l \<rparr>] s)
             \<lparr>ready_list := fun_upd (ready_list s) c []\<rparr>)"
proof -
  from inv have ri: "regions_inv s" by (simp add: pool_inv_def)
  from r have c: "contains r b" by (simp add: contains_def)
  from region_of_SomeI [OF ri r(1) c] have "fst (GetRegion b s) = Some r"
    by (simp add: GetRegion_region_of [OF ri])
  moreover from ri r(1) have "region_ok s r" by (simp add: regions_inv_def)
  from bucket_index_eq [OF this c] have "bucket_index s r b = 0" by (simp add: r(2))
  ultimately have "pick_walk s 0 (ready_list s c) = Found \<lparr> start = b, len = l \<rparr> []"
    by (simp add: rdy)
  then show ?thesis by (simp add: PickReadyBlocks_def)
qed

lemma set_idle_fields:
  "g_block_size (set_idle c b l s) = g_block_size s"
  "g_buckets (set_idle c b l s) = g_buckets s"
  "g_region_num (set_idle c b l s) = g_region_num s"
  "heap (set_idle c b l s) = heap s"
  "g_cb (set_idle c b l s) = g_cb s"
  "ready_list (set_idle c b l s) = ready_list s"
  "idle_list (set_idle c b l s) c b = l"
  by (simp_all add: set_idle_def)

lemma pick_then_take:
  assumes sc: "scen s" and c: "c < 4"
    and rdy: "ready_list s c = [\<lparr> start = b, len = 67108864 \<rparr>]"
    and r: "r \<in> set (installed s)" "r_start r = b" "0 < r_size r"
  shows "\<exists>s3 s'. PickReadyBlocks c 0 s = Some s3 \<and> idle_list s3 c 0 \<noteq> []
     \<and> take_block c 0 s3 = Some (b, s') \<and> scen s'
     \<and> g_region_num s' = g_region_num s \<and> heap s' = heap s \<and> g_cb s' = g_cb s
     \<and> ready_list s' c = []
     \<and> (\<exists>n. idle_list s' c 0 = [n] \<and> len n = 67108864 - g_block_size s ! c)"
proof -
  from sc have inv: "pool_inv s" and k1: "g_buckets s = 1"
    and bs: "g_block_size s = [8192, 16384, 32768, 65536]"
    by (simp_all add: scen_def)
  let ?n = "\<lparr> start = b, len = 67108864 \<rparr>"
  let ?s3 = "(set_idle c 0 [?n] s)\<lparr>ready_list := fun_upd (ready_list s) c []\<rparr>"
  let ?bs = "g_block_size s ! c"
  note pick = pick_fresh [OF inv k1 rdy r]
  from pool_inv_PickReadyBlocks [OF inv pick] have inv3: "pool_inv ?s3" .
  have idle3: "idle_list ?s3 c 0 = [?n]" by (simp add: set_idle_def)
  have bs3: "g_block_size ?s3 ! c = ?bs" by (simp add: set_idle_def)
  from c have "c = 0 \<or> c = 1 \<or> c = 2 \<or> c = 3" by linarith
  then have small: "?bs < 67108864" by (auto simp: bs)
  let ?n' = "\<lparr> start = u64 (b + ?bs), len = 67108864 - ?bs \<rparr>"
  let ?s' = "set_idle c 0 [?n'] ?s3"
  have run: "take_block c 0 ?s3 = Some (b, ?s')"
    using take_block_long [OF idle3] small by (simp add: set_idle_fields)
  from pool_inv_take_block [OF inv3 run] have inv': "pool_inv ?s'" .
  with sc have sc': "scen ?s'" by (simp add: scen_def set_idle_def)
  have f: "g_region_num ?s' = g_region_num s" "heap ?s' = heap s" "g_cb ?s' = g_cb s"
    "ready_list ?s' c = []" "idle_list ?s' c 0 = [?n']"
    by (simp_all add: set_idle_def)
  have ne: "idle_list ?s3 c 0 \<noteq> []" by (simp add: set_idle_fields)
  show ?thesis
    by (intro exI [of _ ?s3] exI [of _ ?s'] conjI pick ne run sc' f(1,2,3,4) exI [of _ ?n'])
       (simp_all add: f(5))
qed

lemma regularize_64:
  "regularize 64 8192 1 = 67108864" "regularize 64 65536 1 = 67108864"
  "regularize 64 8192 (Suc 0) = 67108864" "regularize 64 65536 (Suc 0) = 67108864"
  by (simp_all add: regularize_def u64_def BYTES_IN_MB_def)

lemma memalign_okD:
  assumes "memalign_ok e s" "e_memalign e n = Some b"
  shows "b \<noteq> 0" "b + max 1 n < 2 ^ 64" "\<forall>x \<in> set (heap s). separate (b, n) x"
  using assms unfolding memalign_ok_def by blast+

lemma class3_fit:
  "32768 < sz \<Longrightarrow> sz \<le> 65536 \<Longrightarrow> first_fit sz [8192, 16384, 32768, 65536] 0 = Some 3"
  by (simp add: numeral_3_eq_3)

lemma scen_extend_frame:
  assumes sc: "scen s" and inv': "pool_inv (install_region b rs c lkey s)"
  shows "scen (install_region b rs c lkey s)"
  using assms by (simp add: scen_def install_region_def)

lemma refill_alloc:
  assumes st: "stock 3 q 0 s" and cls: "32768 < sz" "sz \<le> 65536"
  shows "AllocBlock e sz s =
     (case ExtendBlockPool e 64 3 s of
        None \<Rightarrow> None
      | Some (b, s2) \<Rightarrow>
          if b = 0 then Some (0, s2)
          else (case PickReadyBlocks 3 0 s2 of
                  None \<Rightarrow> None
                | Some s3 \<Rightarrow> take_block 3 0 s3))"
proof -
  from st have sc: "scen s" and rdy: "ready_list s 3 = []" and idle: "idle_list s 3 0 = []"
    by (simp_all add: stock_def)
  from sc have k1: "g_buckets s = 1" and gi: "g_info s"
    and fl: "FLAGS_rdma_memory_pool_increase_size_mb s = 64"
    by (simp_all add: scen_def)
  from cls have nz: "sz \<noteq> 0" by simp
  note eq = scen_AllocBlock [OF sc nz cls(2) class3_fit [OF cls], of e]
  have k: "g_buckets s \<noteq> 0" by (simp add: k1)
  have i0: "e_rand e mod g_buckets s = 0" by (simp add: k1)
  have pick: "PickReadyBlocks 3 (e_rand e mod g_buckets s) s = Some s"
    by (simp add: PickReadyBlocks_def rdy)
  have idle': "idle_list s 3 (e_rand e mod g_buckets s) = []" by (simp add: i0 idle)
  have sz64: "size_t_of_int (FLAGS_rdma_memory_pool_increase_size_mb s) = 64"
    by (simp add: fl size_t_of_int_def)
  show ?thesis
    unfolding eq AllocBlockFrom_extend [OF k gi idle' pick idle'] sz64 i0 ..
qed

lemma refill_step:
  assumes st: "stock 3 q 0 s" and env: "memalign_ok e s"
    and cls: "32768 < sz" "sz \<le> 65536"
    and ext: "ExtendBlockPool e 64 3 s = Some (b, s2)" and b: "b \<noteq> 0"
  shows "\<exists>s'. AllocBlock e sz s = Some (b, s') \<and> stock 3 (q + 1) 1023 s'
           \<and> heap s' = (b, 67108864) # heap s \<and> g_cb s' = g_cb s"
proof -
  from st have sc: "scen s" and num: "g_region_num s = 1 + q"
    and rdy: "ready_list s 3 = []" and idle: "idle_list s 3 0 = []"
    by (simp_all add: stock_def)
  from sc have inv: "pool_inv s" and k1: "g_buckets s = 1"
    and bs: "g_block_size s = [8192, 16384, 32768, 65536]"
    by (simp_all add: scen_def)
  have bs3: "g_block_size s ! 3 = 65536" by (simp add: bs)
  from ext b obtain cb where room: "g_region_num s \<noteq> g_max_regions s"
    and mem: "e_memalign e (regularize 64 (g_block_size s ! 3) (g_buckets s)) = Some b"
    and s2: "s2 = install_region b (regularize 64 (g_block_size s ! 3) (g_buckets s)) 3
                (cb b (regularize 64 (g_block_size s ! 3) (g_buckets s))) s"
    by (rule ExtendBlockPool_success)
  let ?lkey = "cb b 67108864"
  from s2 have s2: "s2 = install_region b 67108864 3 ?lkey s"
    by (simp add: bs3 k1 regularize_64)
  from mem have mem: "e_memalign e 67108864 = Some b" by (simp add: bs3 k1 regularize_64)
  from inv have m: "mode_inv s" and ri: "regions_inv s" by (simp_all add: pool_inv_def)
  have "g_block_size s \<noteq> [0, 0, 0, 0]" by (simp add: bs)
  with mode_inv_initialised [OF m]
  have bs1: "g_block_size s = block_sizes (DEFAULT_BLOCK_SIZE s)" by blast
  have small: "g_buckets s * (64 * BYTES_IN_MB) < 2 ^ 64" by (simp add: k1 BYTES_IN_MB_def)
  have bt: "3 < BLOCK_SIZE_COUNT" by (simp add: BLOCK_SIZE_COUNT_def)
  from pool_inv_ExtendBlockPool [OF inv env bs1 bt small ext] have inv2: "pool_inv s2" .
  from scen_extend_frame [OF sc] inv2 have sc2: "scen s2" unfolding s2 by simp
  from memalign_okD(2) [OF env mem] have "b < 2 ^ 64" by simp
  then have ub: "u64 b = b" by (rule u64_id)
  have rdy2: "ready_list s2 3 = [\<lparr> start = b, len = 67108864 \<rparr>]"
    unfolding s2 by (simp add: install_region_def push_ready_eq k1 rdy u64_def [of 0] ub)
  from ri room have slot: "g_region_num s < length (g_regions s)"
    by (simp add: regions_inv_def)
  let ?r = "\<lparr> r_start = b, r_size = 67108864, r_block_type = 3, r_id = ?lkey \<rparr>"
  have r: "?r \<in> set (installed s2)" "r_start ?r = b" "0 < r_size ?r"
    unfolding s2 installed_install_region [OF slot] by simp_all
  have c3: "(3::nat) < 4" by simp
  from pick_then_take [OF sc2 c3 rdy2 r] obtain s3 s' n where
    pick: "PickReadyBlocks 3 0 s2 = Some s3" and tk: "take_block 3 0 s3 = Some (b, s')"
    and sc': "scen s'" and f: "g_region_num s' = g_region_num s2" "heap s' = heap s2"
      "g_cb s' = g_cb s2" "ready_list s' 3 = []"
    and n: "idle_list s' 3 0 = [n]" "len n = 67108864 - g_block_size s2 ! 3"
    by blast
  have run: "AllocBlock e sz s = Some (b, s')"
    unfolding refill_alloc [OF st cls] by (simp add: ext b pick tk)
  from sc' have "g_block_size s' ! 3 = 65536" by (simp add: scen_def)
  moreover have "g_block_size s2 ! 3 = 65536" unfolding s2 by (simp add: install_region_fields bs3)
  ultimately have ln: "len n = 1023 * g_block_size s' ! 3" using n(2) by simp
  have "stock 3 (q + 1) 1023 s'"
    unfolding stock_def using sc' f(1,4) n(1) ln num
    by (simp add: s2 install_region_fields)
  moreover have "heap s' = (b, 67108864) # heap s" "g_cb s' = g_cb s"
    using f(2,3) by (simp_all add: s2 install_region_fields)
  ultimately show ?thesis using run by blast
qed

lemma refill_total:
  assumes st: "stock 3 q 0 s"
  shows "ExtendBlockPool e 64 3 s \<noteq> None"
proof -
  from st have sc: "scen s" by (simp add: stock_def)
  then obtain cb where "g_cb s = Some cb" "g_buckets s = 1" "g_block_size s ! 3 = 65536"
    by (auto simp: scen_def)
  then show ?thesis unfolding ExtendBlockPool_eq by (simp split: option.split)
qed

lemma refill_success:
  assumes st: "stock 3 q 0 s" and env: "memalign_ok e s"
    and cls: "32768 < sz" "sz \<le> 65536"
    and run: "AllocBlock e sz s = Some (p, s')" and p: "p \<noteq> 0"
  shows "stock 3 (q + 1) 1023 s'"
proof -
  from refill_total [OF st, of e] obtain b s2 where ext: "ExtendBlockPool e 64 3 s = Some (b, s2)"
    by (cases "ExtendBlockPool e 64 3 s") auto
  have "b \<noteq> 0"
  proof
    assume "b = 0"
    with run ext have "p = 0" unfolding refill_alloc [OF st cls] by simp
    with p show False by simp
  qed
  from refill_step [OF st env cls ext this] run show ?thesis by auto
qed

lemma prepare_single_fields:
  "g_region_num (prepare cb single_bucket_pool) = 0"
  "g_max_regions (prepare cb single_bucket_pool) = 16"
  "g_buckets (prepare cb single_bucket_pool) = 1"
  "g_block_size (prepare cb single_bucket_pool) = [8192, 16384, 32768, 65536]"
  "g_cb (prepare cb single_bucket_pool) = cb"
  "g_info (prepare cb single_bucket_pool)"
  "heap (prepare cb single_bucket_pool) = []"
  "ready_list (prepare cb single_bucket_pool) c = []"
  "idle_list (prepare cb single_bucket_pool) c b = []"
  "FLAGS_rdma_memory_pool_increase_size_mb (prepare cb single_bucket_pool) = 64"
  "length (g_regions (prepare cb single_bucket_pool)) = 16"
  by (simp_all add: prepare_def clamp_flags_def single_bucket_pool_def static_pool_def
        MAX_REGIONS_def u64_def)

lemma reachable_single: "reachable single_bucket_pool"
proof -
  have "config_ok single_bucket_pool"
    by (simp add: config_ok_def single_bucket_pool_def static_pool_def)
  then show ?thesis unfolding single_bucket_pool_def by (rule reachable.start)
qed

lemma init_single:
  assumes env: "memalign_ok e0 single_bucket_pool"
    and init: "InitBlockPool e0 cb single_bucket_pool = Some (p0, s0)" and p0: "p0 \<noteq> 0"
  shows "scen s0" "g_region_num s0 = 1" "ready_list s0 3 = []" "idle_list s0 c 0 = []"
    "ready_list s0 0 = [\<lparr> start = p0, len = 67108864 \<rparr>]"
    "\<exists>r \<in> set (installed s0). r_start r = p0 \<and> 0 < r_size r"
proof -
  let ?s = "prepare cb single_bucket_pool"
  from reachable_single env init have "reachable s0" by (rule reachable.init)
  then have inv: "pool_inv s0" by (rule reachable_pool_inv)
  have none: "g_cb single_bucket_pool = None"
    by (simp add: single_bucket_pool_def static_pool_def)
  from init p0 have cb: "cb \<noteq> None" and
    ext: "ExtendBlockPool e0 (size_t_of_int
            (max 64 (FLAGS_rdma_memory_pool_initial_size_mb single_bucket_pool))) 0 ?s
          = Some (p0, s0)"
    unfolding InitBlockPool_eq by (auto simp: none split: if_splits)
  from ext p0 obtain f where mem: "e_memalign e0
        (regularize (size_t_of_int
            (max 64 (FLAGS_rdma_memory_pool_initial_size_mb single_bucket_pool)))
           (g_block_size ?s ! 0) (g_buckets ?s)) = Some p0"
    and s0: "s0 = install_region p0
        (regularize (size_t_of_int
            (max 64 (FLAGS_rdma_memory_pool_initial_size_mb single_bucket_pool)))
           (g_block_size ?s ! 0) (g_buckets ?s)) 0
        (f p0 (regularize (size_t_of_int
            (max 64 (FLAGS_rdma_memory_pool_initial_size_mb single_bucket_pool)))
           (g_block_size ?s ! 0) (g_buckets ?s))) ?s"
    by (rule ExtendBlockPool_success)
  have sz: "size_t_of_int (max 64 (FLAGS_rdma_memory_pool_initial_size_mb single_bucket_pool)) = 64"
    by (simp add: single_bucket_pool_def static_pool_def size_t_of_int_def)
  have rs: "regularize 64 (g_block_size ?s ! 0) (g_buckets ?s) = 67108864"
    by (simp add: prepare_single_fields regularize_64)
  from s0 have s0: "s0 = install_region p0 67108864 0 (f p0 67108864) ?s"
    unfolding sz rs .
  from mem have mem: "e_memalign e0 67108864 = Some p0" unfolding sz rs .
  from memalign_okD(2) [OF env mem] have "p0 < 2 ^ 64" by simp
  then have ub: "u64 p0 = p0" by (rule u64_id)
  from inv cb show "scen s0"
    unfolding s0 by (simp add: scen_def install_region_def prepare_single_fields)
  show "g_region_num s0 = 1" "ready_list s0 3 = []" "idle_list s0 c 0 = []"
    unfolding s0 by (simp_all add: install_region_def prepare_single_fields)
  show "ready_list s0 0 = [\<lparr> start = p0, len = 67108864 \<rparr>]"
    unfolding s0
    by (simp add: install_region_def push_ready_eq prepare_single_fields u64_def [of 0] ub)
  have slot: "g_region_num ?s < length (g_regions ?s)" by (simp add: prepare_single_fields)
  show "\<exists>r \<in> set (installed s0). r_start r = p0 \<and> 0 < r_size r"
    unfolding s0 installed_install_region [OF slot] by simp
qed

lemma carve_run:
  assumes "stock c q k s" and c: "c < 4"
    and cls: "sz \<noteq> 0" "sz \<le> 65536" "first_fit sz [8192, 16384, 32768, 65536] 0 = Some c"
    and "length es \<le> k"
  shows "\<exists>ps s'. alloc_many es sz s = Some (ps, s') \<and> length ps = length es
           \<and> 0 \<notin> set ps \<and> stock c q (k - length es) s'"
  using assms(1,6)
proof (induction es arbitrary: k s)
  case Nil
  then show ?case by simp
next
  case (Cons e es)
  from Cons.prems(2) have k: "0 < k" and le: "length es \<le> k - 1" by simp_all
  from carve [OF Cons.prems(1) k c cls, of e] obtain p s1 where
    a: "AllocBlock e sz s = Some (p, s1)" "p \<noteq> 0" and st1: "stock c q (k - 1) s1"
    by blast
  from Cons.IH [OF st1 le] obtain ps s' where
    r: "alloc_many es sz s1 = Some (ps, s')" "length ps = length es" "0 \<notin> set ps"
    "stock c q (k - 1 - length es) s'"
    by blast
  have "alloc_many (e # es) sz s = Some (p # ps, s')" by (simp add: a r)
  moreover have "k - 1 - length es = k - length (e # es)" by simp
  ultimately show ?case using a(2) r by (intro exI [of _ "p # ps"] exI [of _ s']) auto
qed

lemma class3_run:
  assumes "stock 3 q k s" and "k < 1024"
    and cls: "32768 < sz" "sz \<le> 65536"
    and "envs_ok es sz s" and "alloc_many es sz s = Some (ps, s')" and "0 \<notin> set ps"
  shows "\<exists>q' k'. stock 3 q' k' s' \<and> k' < 1024
           \<and> 1024 * q' + k = 1024 * q + k' + length es"
  using assms(1,2,5,6,7)
proof (induction es arbitrary: q k s ps)
  case Nil
  then show ?case by auto
next
  case (Cons e es)
  from Cons.prems(4) obtain p s1 ps' where
    a: "AllocBlock e sz s = Some (p, s1)" and r: "alloc_many es sz s1 = Some (ps', s')"
    and ps: "ps = p # ps'"
    by (auto split: option.splits)
  from Cons.prems(3) a have env: "memalign_ok e s" and ok1: "envs_ok es sz s1" by simp_all
  from Cons.prems(5) ps have p: "p \<noteq> 0" and nz: "0 \<notin> set ps'" by auto
  from cls have c0: "sz \<noteq> 0" by simp
  show ?case
  proof (cases "k = 0")
    case True
    with Cons.prems(1) have st: "stock 3 q 0 s" by simp
    from refill_success [OF st env cls a p] have st1: "stock 3 (q + 1) 1023 s1" .
    from Cons.IH [OF st1 _ ok1 r nz] obtain q' k' where
      "stock 3 q' k' s'" "k' < 1024" "1024 * q' + 1023 = 1024 * (q + 1) + k' + length es"
      by auto
    with True show ?thesis by (intro exI [of _ q'] exI [of _ k']) simp
  next
    case False
    then have k: "0 < k" by simp
    have c3: "(3::nat) < 4" by simp
    from carve [OF Cons.prems(1) k c3 c0 cls(2) class3_fit [OF cls], of e] a
    have st1: "stock 3 q (k - 1) s1" by auto
    from Cons.prems(2) have "k - 1 < 1024" by simp
    from Cons.IH [OF st1 this ok1 r nz] obtain q' k' where
      "stock 3 q' k' s'" "k' < 1024" "1024 * q' + (k - 1) = 1024 * q + k' + length es"
      by auto
    with k show ?thesis by (intro exI [of _ q'] exI [of _ k']) simp
  qed
qed

lemma alloc_many_length:
  "alloc_many es sz s = Some (ps, s') \<Longrightarrow> length ps = length es"
  by (induction es arbitrary: s ps) (auto split: option.splits)

lemma memalign_ok_single: "memalign_ok (env_at 4096) single_bucket_pool"
  by (rule memalign_ok_env_at) (simp_all add: single_bucket_pool_def static_pool_def)

lemma init_single_ready:
  "InitBlockPool (env_at 4096) (Some dummy_cb) single_bucket_pool =
     Some (4096, single_bucket_ready)"
proof -
  have "ExtendBlockPool (env_at 4096) 64 0 (prepare (Some dummy_cb) single_bucket_pool) =
      Some (4096, single_bucket_ready)"
    unfolding ExtendBlockPool_eq prepare_single_fields
    by (simp add: regularize_64 env_at_def dummy_cb_def single_bucket_ready_def)
  then show ?thesis
    unfolding InitBlockPool_eq
    by (simp add: single_bucket_pool_def static_pool_def env_at_def size_t_of_int_def)
qed

lemma single_ready_more:
  "heap single_bucket_ready = [(4096, 67108864)]"
  "g_cb single_bucket_ready = Some dummy_cb"
  by (simp_all add: single_bucket_ready_def install_region_def prepare_single_fields)

lemma first_class0:
  assumes sc: "scen s0" and num: "g_region_num s0 = 1" and idle: "idle_list s0 0 0 = []"
    and rdy: "ready_list s0 0 = [\<lparr> start = p0, len = 67108864 \<rparr>]"
    and r: "\<exists>r \<in> set (installed s0). r_start r = p0 \<and> 0 < r_size r"
    and p0: "p0 \<noteq> 0" and cls: "sz \<noteq> 0" "sz \<le> 8192"
  shows "\<exists>s1. AllocBlock e sz s0 = Some (p0, s1) \<and> stock 0 0 8191 s1"
proof -
  from sc have k1: "g_buckets s0 = 1" and gi: "g_info s0"
    and bs: "g_block_size s0 = [8192, 16384, 32768, 65536]"
    by (simp_all add: scen_def)
  from cls have fit: "first_fit sz [8192, 16384, 32768, 65536] 0 = Some 0" by simp
  from cls have le: "sz \<le> 65536" by simp
  note eq = scen_AllocBlock [OF sc cls(1) le fit, of e]
  from r obtain r where r: "r \<in> set (installed s0)" "r_start r = p0" "0 < r_size r" by blast
  have c0: "(0::nat) < 4" by simp
  from pick_then_take [OF sc c0 rdy r] obtain s3 s1 n where
    pick: "PickReadyBlocks 0 0 s0 = Some s3" and ne: "idle_list s3 0 0 \<noteq> []"
    and tk: "take_block 0 0 s3 = Some (p0, s1)"
    and sc1: "scen s1" and f: "g_region_num s1 = g_region_num s0" "ready_list s1 0 = []"
    and n: "idle_list s1 0 0 = [n]" "len n = 67108864 - g_block_size s0 ! 0"
    by blast
  have k: "g_buckets s0 \<noteq> 0" by (simp add: k1)
  have i0: "e_rand e mod g_buckets s0 = 0" by (simp add: k1)
  have "AllocBlockFrom e 0 s0 = take_block 0 0 s3"
    using AllocBlockFrom_ready [of s0 0 e s3] k gi idle pick ne by (simp add: i0)
  with tk have run: "AllocBlock e sz s0 = Some (p0, s1)" unfolding eq by simp
  from sc1 have "g_block_size s1 ! 0 = 8192" by (simp add: scen_def)
  with n(2) have "len n = 8191 * g_block_size s1 ! 0" by (simp add: bs)
  with sc1 f n(1) num have "stock 0 0 8191 s1" by (simp add: stock_def)
  with run show ?thesis by blast
qed

lemma class0_run:
  assumes env: "memalign_ok e0 single_bucket_pool"
    and init: "InitBlockPool e0 cb single_bucket_pool = Some (p0, s0)" and p0: "p0 \<noteq> 0"
    and cls: "sz \<noteq> 0" "sz \<le> 8192" and len: "length es = 4096"
  shows "alloc_summary es sz s0 = Some (4096, True, 1)"
proof -
  note i = init_single [OF env init p0]
  from len obtain e es' where es: "es = e # es'" and len': "length es' = 4095"
    by (cases es) auto
  from first_class0 [OF i(1,2) i(4) i(5,6) p0 cls, of e] obtain s1 where
    a: "AllocBlock e sz s0 = Some (p0, s1)" and st: "stock 0 0 8191 s1"
    by blast
  from cls have fit: "first_fit sz [8192, 16384, 32768, 65536] 0 = Some 0"
    and le: "sz \<le> 65536" by simp_all
  have c0: "(0::nat) < 4" by simp
  from carve_run [OF st c0 cls(1) le fit, of es'] len' obtain ps s' where
    r: "alloc_many es' sz s1 = Some (ps, s')" "length ps = length es'" "0 \<notin> set ps"
    "stock 0 0 (8191 - length es') s'"
    by auto
  from r(4) have "g_region_num s' = 1" by (simp add: stock_def)
  with a r p0 len' show ?thesis
    by (simp add: alloc_summary_def es GetRegionNum_def)
qed

text \<open>
  Claim C10, as stated, fails: 4096 allocations of class 0 (8192 bytes) all succeed
  within the first region, which holds 8192 such blocks, and the region count stays 1.
\<close>

theorem class0_no_extension_counterexample:
  "InitBlockPool (env_at 4096) (Some dummy_cb) single_bucket_pool =
     Some (4096, single_bucket_ready)
   \<and> alloc_summary (replicate 4096 (env_at 2147483648)) 8192 single_bucket_ready =
       Some (4096, True, 1)
   \<and> alloc_summary (replicate 4096 (env_at 2147483648)) 8192 single_bucket_ready \<noteq>
       Some (4096, True, 5)"
proof -
  have p: "(4096::nat) \<noteq> 0" "(8192::nat) \<noteq> 0" "(8192::nat) \<le> 8192" by simp_all
  have len: "length (replicate 4096 (env_at 2147483648)) = 4096" by simp
  from class0_run [OF memalign_ok_single init_single_ready p len]
  show ?thesis using init_single_ready by simp
qed

lemma memalign_ok_fresh:
  assumes i: "i \<le> 4096"
    and heap: "\<forall>x \<in> set (heap s). fst x + max 1 (snd x) \<le> 2 ^ 32 * (i + 1)"
  shows "memalign_ok (fresh_env i) s"
  unfolding fresh_env_def
proof (rule memalign_ok_env_at)
  show "2 ^ 32 * (i + 1) \<noteq> (0::nat)" by simp
  from i have "(2::nat) ^ 32 * (i + 1) \<le> 2 ^ 32 * 4097" by simp
  then show "(2::nat) ^ 32 * (i + 1) + 2 ^ 30 < 2 ^ 64" by simp
  from heap show "\<forall>x \<in> set (heap s). fst x + max 1 (snd x) \<le> 2 ^ 32 * (i + 1)" .
qed

lemma fresh_extend:
  assumes st: "stock 3 q 0 s" and cb: "g_cb s = Some dummy_cb" and q: "q \<le> 14"
  shows "\<exists>s2. ExtendBlockPool (fresh_env i) 64 3 s = Some (2 ^ 32 * (i + 1), s2)"
proof -
  from st have sc: "scen s" and num: "g_region_num s = 1 + q" by (simp_all add: stock_def)
  from sc have f: "g_buckets s = 1" "g_block_size s ! 3 = 65536" "g_max_regions s = 16"
    by (simp_all add: scen_def)
  from num q have room: "g_region_num s \<noteq> 16" by simp
  show ?thesis
    unfolding ExtendBlockPool_eq f
    using room cb by (simp add: regularize_64 fresh_env_def env_at_def dummy_cb_def)
qed

lemma fresh_run:
  assumes "stock 3 q k s" and "k < 1024" and "g_cb s = Some dummy_cb"
    and cls: "32768 < sz" "sz \<le> 65536"
    and "\<forall>x \<in> set (heap s). fst x + max 1 (snd x) \<le> 2 ^ 32 * (i + 1)"
    and "1024 * q + n \<le> 15360 + k" and "i + n \<le> 4096"
  shows "envs_ok (map fresh_env [i..<i + n]) sz s
    \<and> (\<exists>ps s'. alloc_many (map fresh_env [i..<i + n]) sz s = Some (ps, s') \<and> 0 \<notin> set ps)"
  using assms(1,2,3,6,7,8)
proof (induction n arbitrary: i q k s)
  case 0
  then show ?case by simp
next
  case (Suc n)
  let ?e = "fresh_env i"
  have up: "[i..<i + Suc n] = i # [Suc i..<Suc i + n]" by (simp add: upt_rec)
  from Suc.prems(6) have i: "i \<le> 4096" and i': "Suc i + n \<le> 4096" by simp_all
  from memalign_ok_fresh [OF i Suc.prems(4)] have env: "memalign_ok ?e s" .
  from cls have c0: "sz \<noteq> 0" by simp
  have "\<exists>p s1 q1 k1. AllocBlock ?e sz s = Some (p, s1) \<and> p \<noteq> 0 \<and> stock 3 q1 k1 s1
      \<and> k1 < 1024 \<and> g_cb s1 = Some dummy_cb \<and> 1024 * q1 + n \<le> 15360 + k1
      \<and> (\<forall>x \<in> set (heap s1). fst x + max 1 (snd x) \<le> 2 ^ 32 * (Suc i + 1))"
  proof (cases "k = 0")
    case True
    with Suc.prems(1) have st: "stock 3 q 0 s" by simp
    from Suc.prems(5) True have q: "q \<le> 14" by simp
    from fresh_extend [OF st Suc.prems(3) q, of i] obtain s2 where
      ext: "ExtendBlockPool ?e 64 3 s = Some (2 ^ 32 * (i + 1), s2)" by blast
    have nz: "(2::nat) ^ 32 * (i + 1) \<noteq> 0" by simp
    from refill_step [OF st env cls ext nz] obtain s1 where
      a: "AllocBlock ?e sz s = Some (2 ^ 32 * (i + 1), s1)" and st1: "stock 3 (q + 1) 1023 s1"
      and h: "heap s1 = (2 ^ 32 * (i + 1), 67108864) # heap s" and cb1: "g_cb s1 = g_cb s"
      by blast
    have hb: "\<forall>x \<in> set (heap s1). fst x + max 1 (snd x) \<le> 2 ^ 32 * (Suc i + 1)"
      unfolding h using Suc.prems(4) by fastforce
    from Suc.prems(5) True have "1024 * (q + 1) + n \<le> 15360 + 1023" by simp
    with a nz st1 cb1 Suc.prems(3) hb show ?thesis
      by (intro exI [of _ "2 ^ 32 * (i + 1)"] exI [of _ s1] exI [of _ "q + 1"]
            exI [of _ 1023]) simp
  next
    case False
    then have k: "0 < k" by simp
    have c3: "(3::nat) < 4" by simp
    from carve [OF Suc.prems(1) k c3 c0 cls(2) class3_fit [OF cls], of ?e] obtain p s1 where
      a: "AllocBlock ?e sz s = Some (p, s1)" "p \<noteq> 0" and st1: "stock 3 q (k - 1) s1"
      and h: "heap s1 = heap s" and cb1: "g_cb s1 = g_cb s"
      by blast
    have hb: "\<forall>x \<in> set (heap s1). fst x + max 1 (snd x) \<le> 2 ^ 32 * (Suc i + 1)"
      unfolding h using Suc.prems(4) by fastforce
    from Suc.prems(2,5) k have "k - 1 < 1024" "1024 * q + n \<le> 15360 + (k - 1)" by simp_all
    with a st1 cb1 Suc.prems(3) hb show ?thesis
      by (intro exI [of _ p] exI [of _ s1] exI [of _ q] exI [of _ "k - 1"]) simp
  qed
  then obtain p s1 q1 k1 where a: "AllocBlock ?e sz s = Some (p, s1)" and p: "p \<noteq> 0"
    and st1: "stock 3 q1 k1 s1" and k1: "k1 < 1024" and cb1: "g_cb s1 = Some dummy_cb"
    and room: "1024 * q1 + n \<le> 15360 + k1"
    and hb: "\<forall>x \<in> set (heap s1). fst x + max 1 (snd x) \<le> 2 ^ 32 * (Suc i + 1)"
    by blast
  from Suc.IH [OF st1 k1 cb1 hb room i'] obtain ps s' where
    ok: "envs_ok (map fresh_env [Suc i..<Suc i + n]) sz s1"
    and r: "alloc_many (map fresh_env [Suc i..<Suc i + n]) sz s1 = Some (ps, s')" "0 \<notin> set ps"
    by blast
  have "envs_ok (map fresh_env [i..<i + Suc n]) sz s"
    unfolding up using env a ok by simp
  moreover have "alloc_many (map fresh_env [i..<i + Suc n]) sz s = Some (p # ps, s')"
    unfolding up using a r by simp
  ultimately show ?case using p r(2) by (intro conjI exI [of _ "p # ps"] exI [of _ s']) auto
qed

text \<open>
  Claim C10, as amended. With blocks of 8192 bytes, one bucket, 64 MiB regions and at
  most 16 regions: after a successful \<open>InitBlockPool\<close> the region count is 1, and
  after 4096 calls of \<open>AllocBlock\<close> with a size of class 3 (above 32768 and at most
  65536 bytes; the unit test asks for 65534), all of which return a non-null pointer,
  the region count is 5, below the limit of 16.
\<close>

theorem extension_reaches_five:
  assumes env: "memalign_ok e0 single_bucket_pool"
    and init: "InitBlockPool e0 cb single_bucket_pool = Some (p0, s0)" and p0: "p0 \<noteq> 0"
    and cls: "32768 < sz" "sz \<le> 65536"
    and len: "length es = 4096" and envs: "envs_ok es sz s0"
    and run: "alloc_many es sz s0 = Some (ps, s')" and ps: "0 \<notin> set ps"
  shows "GetRegionNum s0 = 1 \<and> GetRegionNum s' = 5 \<and> GetRegionNum s' < g_max_regions s'"
proof -
  note i = init_single [OF env init p0]
  from i(1,2,3) i(4) [of 3] have st: "stock 3 0 0 s0" by (simp add: stock_def)
  from class3_run [OF st _ cls envs run ps] obtain q' k' where
    st': "stock 3 q' k' s'" and k': "k' < 1024" and eq: "1024 * q' = k' + length es"
    by auto
  from eq k' len have "q' = 4" by simp
  with st' have "g_region_num s' = 5" "g_max_regions s' = 16"
    by (simp_all add: stock_def scen_def)
  with i(2) show ?thesis by (simp add: GetRegionNum_def)
qed

theorem extension_reaches_five_witness:
  "InitBlockPool (env_at 4096) (Some dummy_cb) single_bucket_pool =
     Some (4096, single_bucket_ready)
   \<and> envs_ok (map fresh_env [0..<4096]) 65534 single_bucket_ready
   \<and> alloc_summary (map fresh_env [0..<4096]) 65534 single_bucket_ready = Some (4096, True, 5)"
proof -
  let ?es = "map fresh_env [0..<4096]"
  have p: "(4096::nat) \<noteq> 0" by simp
  have cls: "(32768::nat) < 65534" "(65534::nat) \<le> 65536" by simp_all
  note i = init_single [OF memalign_ok_single init_single_ready p]
  from i(1,2,3) i(4) [of 3] have st: "stock 3 0 0 single_bucket_ready" by (simp add: stock_def)
  have hb: "\<forall>x \<in> set (heap single_bucket_ready). fst x + max 1 (snd x) \<le> 2 ^ 32 * (0 + 1)"
    by (simp add: single_ready_more)
  from fresh_run [OF st _ single_ready_more(2) cls hb, of 4096] obtain ps s' where
    ok: "envs_ok ?es 65534 single_bucket_ready"
    and run: "alloc_many ?es 65534 single_bucket_ready = Some (ps, s')" and nz: "0 \<notin> set ps"
    by auto
  have len: "length ?es = 4096" by simp
  from extension_reaches_five [OF memalign_ok_single init_single_ready p cls len ok run nz]
  have "GetRegionNum s' = 5" by simp
  moreover from alloc_many_length [OF run] have "length ps = 4096" by simp
  ultimately have "alloc_summary ?es 65534 single_bucket_ready = Some (4096, True, 5)"
    using run nz by (simp add: alloc_summary_def)
  with ok init_single_ready show ?thesis by simp
qed

end
